theory Spec2Isabelle
  imports Main "HOL-Library.Word"
begin

unbundle bit_operations_syntax

section \<open>Data model\<close>

text \<open>
  The program is Go. Its \<open>byte\<close>, \<open>uint32\<close> and \<open>uint64\<close> are words of that width;
  its \<open>int\<close> (64 bit) holds pixel coordinates and cell counts only, which stay far from
  the 64-bit range, so it is modelled as \<open>int\<close> and \<open>nat\<close>. A run-time panic of Go is
  a value of type \<open>panic\<close>, and a function that can panic returns \<open>panic + 'a\<close>.
\<close>

type_synonym byte = "8 word"
type_synonym uint32 = "32 word"
type_synonym uint64 = "64 word"

datatype panic = IndexOutOfRange | SliceBoundsOutOfRange | MakeSliceLenOutOfRange
  | IntegerDivideByZero

text \<open>
  \<open>image.Image\<close> is used through \<open>Bounds()\<close> and \<open>At(x, y).RGBA()\<close> only; a colour is
  the four \<open>uint32\<close> values that \<open>RGBA()\<close> returns, in the order r, g, b, a.
\<close>

type_synonym color = "uint32 \<times> uint32 \<times> uint32 \<times> uint32"

record Rectangle =
  MinX :: int
  MinY :: int
  MaxX :: int
  MaxY :: int

record Image =
  Bounds :: Rectangle
  At :: "int \<Rightarrow> int \<Rightarrow> color"

definition Dx :: "Rectangle \<Rightarrow> int" where
  "Dx r = MaxX r - MinX r"

definition Dy :: "Rectangle \<Rightarrow> int" where
  "Dy r = MaxY r - MinY r"

text \<open>A well-formed rectangle, as every \<open>Bounds()\<close> of Go's image types is.\<close>

definition well_formed :: "Rectangle \<Rightarrow> bool" where
  "well_formed r = (MinX r \<le> MaxX r \<and> MinY r \<le> MaxY r)"

text \<open>\<open>image.Rect\<close> of the standard library: the corners are swapped where needed.\<close>

definition Rect :: "int \<Rightarrow> int \<Rightarrow> int \<Rightarrow> int \<Rightarrow> Rectangle" where
  "Rect x0 y0 x1 y1 =
     \<lparr>MinX = min x0 x1, MinY = min y0 y1, MaxX = max x0 x1, MaxY = max y0 y1\<rparr>"

text \<open>Go's integer division truncates towards zero.\<close>

definition go_quot :: "int \<Rightarrow> int \<Rightarrow> int" where
  "go_quot a b = (if (a < 0) = (b < 0) then \<bar>a\<bar> div \<bar>b\<bar> else - (\<bar>a\<bar> div \<bar>b\<bar>))"

definition go_rem :: "int \<Rightarrow> int \<Rightarrow> int" where
  "go_rem a b = a - b * go_quot a b"

record ImageSet =
  SourceImagePath :: string
  protoImages :: "uint64 \<rightharpoonup> Image"
  images :: "uint64 list"
  orientations :: "byte list"
  stride :: int

definition NewImageSet :: "string \<Rightarrow> ImageSet" where
  "NewImageSet imagePath =
     \<lparr>SourceImagePath = imagePath, protoImages = Map.empty, images = [],
      orientations = [], stride = 0\<rparr>"

section \<open>The imaging library\<close>

text \<open>
  Modelled from the spec: the tile of a cell is the axis-aligned sub-region of the source
  (section 4.3) and the eight variants are the identity, the three rotations, the
  horizontal mirror and the mirror followed by the three rotations (section 4.2). The
  functions \<open>Crop\<close>, \<open>Rotate90\<close>, \<open>Rotate180\<close>, \<open>Rotate270\<close> and \<open>FlipH\<close> belong to the
  library github.com/disintegration/imaging, which is not among the sources; they follow
  its documentation: every result is a fresh image whose bounds start at (0, 0) and that
  is transparent black outside them, rotations are counter-clockwise, \<open>FlipH\<close> mirrors
  left to right, and source coordinates are taken relative to the source's \<open>Min\<close>. The
  library's re-encoding of each pixel as 8-bit NRGBA is taken to keep the values that
  \<open>RGBA()\<close> returns.
\<close>

definition NewNRGBA :: "int \<Rightarrow> int \<Rightarrow> (int \<Rightarrow> int \<Rightarrow> color) \<Rightarrow> Image" where
  "NewNRGBA w h f =
     \<lparr>Bounds = \<lparr>MinX = 0, MinY = 0, MaxX = w, MaxY = h\<rparr>,
      At = (\<lambda>x y. if 0 \<le> x \<and> x < w \<and> 0 \<le> y \<and> y < h then f x y else (0, 0, 0, 0))\<rparr>"

definition Empty :: "Rectangle \<Rightarrow> bool" where
  "Empty r = (MinX r \<ge> MaxX r \<or> MinY r \<ge> MaxY r)"

definition Intersect :: "Rectangle \<Rightarrow> Rectangle \<Rightarrow> Rectangle" where
  "Intersect r s =
     (let r' = \<lparr>MinX = max (MinX r) (MinX s), MinY = max (MinY r) (MinY s),
                MaxX = min (MaxX r) (MaxX s), MaxY = min (MaxY r) (MaxY s)\<rparr>
      in if Empty r' then \<lparr>MinX = 0, MinY = 0, MaxX = 0, MaxY = 0\<rparr> else r')"

definition Crop :: "Image \<Rightarrow> Rectangle \<Rightarrow> Image" where
  "Crop img rect =
     (let r = Intersect rect (Bounds img)
      in NewNRGBA (Dx r) (Dy r) (\<lambda>x y. At img (MinX r + x) (MinY r + y)))"

definition FlipH :: "Image \<Rightarrow> Image" where
  "FlipH img =
     (let b = Bounds img; w = Dx b; h = Dy b
      in NewNRGBA w h (\<lambda>x y. At img (MinX b + (w - 1 - x)) (MinY b + y)))"

definition Rotate90 :: "Image \<Rightarrow> Image" where
  "Rotate90 img =
     (let b = Bounds img; w = Dx b; h = Dy b
      in NewNRGBA h w (\<lambda>x y. At img (MinX b + (w - 1 - y)) (MinY b + x)))"

definition Rotate180 :: "Image \<Rightarrow> Image" where
  "Rotate180 img =
     (let b = Bounds img; w = Dx b; h = Dy b
      in NewNRGBA w h (\<lambda>x y. At img (MinX b + (w - 1 - x)) (MinY b + (h - 1 - y))))"

definition Rotate270 :: "Image \<Rightarrow> Image" where
  "Rotate270 img =
     (let b = Bounds img; w = Dx b; h = Dy b
      in NewNRGBA h w (\<lambda>x y. At img (MinX b + y) (MinY b + (h - 1 - x))))"

section \<open>Hash\<close>

text \<open>
  \<open>hash/fnv\<close> of the standard library, \<open>New64a\<close>: the state is a \<open>uint64\<close> that starts at
  the offset basis; \<open>Write\<close> folds each byte in with exclusive-or and then multiplies by
  the prime; \<open>Sum64\<close> returns the state.
\<close>

definition offset64 :: uint64 where
  "offset64 = 14695981039346656037"

definition prime64 :: uint64 where
  "prime64 = 1099511628211"

fun fnv_Write :: "uint64 \<Rightarrow> byte list \<Rightarrow> uint64" where
  "fnv_Write h [] = h"
| "fnv_Write h (c # cs) = fnv_Write ((h XOR ucast c) * prime64) cs"

text \<open>
  \<open>convertUint32ToBytes(value, data[pos:pos + 4])\<close>: the four bytes of \<open>value\<close>, most
  significant first, written through the slice into \<open>data\<close> at \<open>pos\<close>.
\<close>

definition convertUint32ToBytes :: "uint32 \<Rightarrow> byte list \<Rightarrow> nat \<Rightarrow> byte list" where
  "convertUint32ToBytes v data pos =
     data[pos := ucast (drop_bit 24 v AND 0xFF),
          pos + 1 := ucast (drop_bit 16 v AND 0xFF),
          pos + 2 := ucast (drop_bit 8 v AND 0xFF),
          pos + 3 := ucast (v AND 0xFF)]"

text \<open>
  The body of \<open>Hash\<close>'s inner loop on the state \<open>(data, pos)\<close>. Taking the slice
  \<open>data[pos:pos + 4]\<close> panics when \<open>pos + 4\<close> exceeds the length of \<open>data\<close>. After the
  red, green and blue channels \<open>pos\<close> is advanced by 4; after the alpha channel it is
  not.
\<close>

fun Hash_pixel :: "color \<Rightarrow> byte list \<times> nat \<Rightarrow> panic + byte list \<times> nat" where
  "Hash_pixel (r, g, b, a) (data, pos) =
     (if length data < pos + 4 then Inl SliceBoundsOutOfRange
      else let data = convertUint32ToBytes r data pos; pos = pos + 4 in
      if length data < pos + 4 then Inl SliceBoundsOutOfRange
      else let data = convertUint32ToBytes g data pos; pos = pos + 4 in
      if length data < pos + 4 then Inl SliceBoundsOutOfRange
      else let data = convertUint32ToBytes b data pos; pos = pos + 4 in
      if length data < pos + 4 then Inl SliceBoundsOutOfRange
      else Inr (convertUint32ToBytes a data pos, pos))"

text \<open>The loop over \<open>x\<close> from \<open>rect.Min.X\<close> below \<open>rect.Max.X\<close>, on the list of those \<open>x\<close>.\<close>

fun Hash_cols :: "Image \<Rightarrow> int \<Rightarrow> int list \<Rightarrow> byte list \<times> nat \<Rightarrow> panic + byte list \<times> nat" where
  "Hash_cols img y [] st = Inr st"
| "Hash_cols img y (x # xs) st =
     (case Hash_pixel (At img x y) st of
        Inl e \<Rightarrow> Inl e
      | Inr st' \<Rightarrow> Hash_cols img y xs st')"

text \<open>The loop over \<open>y\<close> from \<open>rect.Min.Y\<close> below \<open>rect.Max.Y\<close>.\<close>

fun Hash_rows :: "Image \<Rightarrow> int list \<Rightarrow> int list \<Rightarrow> byte list \<times> nat \<Rightarrow> panic + byte list \<times> nat" where
  "Hash_rows img xs [] st = Inr st"
| "Hash_rows img xs (y # ys) st =
     (case Hash_cols img y xs st of
        Inl e \<Rightarrow> Inl e
      | Inr st' \<Rightarrow> Hash_rows img xs ys st')"

text \<open>The byte array \<open>data\<close> as \<open>Hash\<close> hands it to \<open>hash.Write\<close>.\<close>

definition Hash_data :: "Image \<Rightarrow> panic + byte list" where
  "Hash_data img =
     (let rect = Bounds img;
          size = (MaxX rect - MinX rect) * (MaxY rect - MinY rect) * 16
      in if size < 0 then Inl MakeSliceLenOutOfRange
         else case Hash_rows img [MinX rect..MaxX rect - 1] [MinY rect..MaxY rect - 1]
                     (replicate (nat size) 0, 0) of
                Inl e \<Rightarrow> Inl e
              | Inr (data, pos) \<Rightarrow> Inr data)"

definition Hash :: "Image \<Rightarrow> panic + uint64" where
  "Hash img =
     (case Hash_data img of
        Inl e \<Rightarrow> Inl e
      | Inr data \<Rightarrow> Inr (fnv_Write offset64 data))"

section \<open>The image set\<close>

text \<open>An assignment \<open>xs[i] = v\<close> to a slice: a panic when \<open>i\<close> is out of range.\<close>

definition set_index :: "'a list \<Rightarrow> int \<Rightarrow> 'a \<Rightarrow> panic + 'a list" where
  "set_index xs i v =
     (if 0 \<le> i \<and> i < int (length xs) then Inr (xs[nat i := v]) else Inl IndexOutOfRange)"

text \<open>A read \<open>xs[i]\<close> of a slice: a panic when \<open>i\<close> is out of range.\<close>

definition get_index :: "'a list \<Rightarrow> int \<Rightarrow> panic + 'a" where
  "get_index xs i =
     (if 0 \<le> i \<and> i < int (length xs) then Inr (xs ! nat i) else Inl IndexOutOfRange)"

text \<open>The eight images that \<open>AddImage\<close> builds, \<open>images[0]\<close> to \<open>images[7]\<close>.\<close>

definition variants :: "Image \<Rightarrow> Image list" where
  "variants img =
     [img, Rotate90 img, Rotate180 img, Rotate270 img, FlipH img,
      Rotate90 (FlipH img), Rotate180 (FlipH img), Rotate270 (FlipH img)]"

text \<open>
  The loop of \<open>AddImage\<close> over \<open>i\<close>, on the images from \<open>images[i]\<close> on. It returns
  \<open>found\<close>, \<open>firstHash\<close> and the image set.
\<close>

fun AddImage_scan ::
  "ImageSet \<Rightarrow> int \<Rightarrow> nat \<Rightarrow> Image list \<Rightarrow> uint64 \<Rightarrow> panic + bool \<times> uint64 \<times> ImageSet" where
  "AddImage_scan p index i [] firstHash = Inr (False, firstHash, p)"
| "AddImage_scan p index i (im # ims) firstHash =
     (case Hash im of
        Inl e \<Rightarrow> Inl e
      | Inr hash \<Rightarrow>
          let firstHash = (if i = 0 then hash else firstHash) in
          if protoImages p hash \<noteq> None then
            (case set_index (orientations p) index (of_nat i) of
               Inl e \<Rightarrow> Inl e
             | Inr os \<Rightarrow>
                 (case set_index (images p) index hash of
                    Inl e \<Rightarrow> Inl e
                  | Inr hs \<Rightarrow> Inr (True, firstHash, p\<lparr>orientations := os, images := hs\<rparr>)))
          else AddImage_scan p index (Suc i) ims firstHash)"

definition AddImage :: "ImageSet \<Rightarrow> Image \<Rightarrow> int \<Rightarrow> int \<Rightarrow> panic + ImageSet" where
  "AddImage p img x y =
     (let index = y * stride p + x in
      case AddImage_scan p index 0 (variants img) 0 of
        Inl e \<Rightarrow> Inl e
      | Inr (found, firstHash, p') \<Rightarrow>
          if found then Inr p'
          else
            (case set_index (images p') index firstHash of
               Inl e \<Rightarrow> Inl e
             | Inr hs \<Rightarrow>
                 (case set_index (orientations p') index 0 of
                    Inl e \<Rightarrow> Inl e
                  | Inr os \<Rightarrow>
                      Inr (p'\<lparr>protoImages := (protoImages p')(firstHash \<mapsto> img),
                               images := hs, orientations := os\<rparr>))))"

definition calculateStride :: "Rectangle \<Rightarrow> int" where
  "calculateStride bounds = go_quot (MaxX bounds - MinX bounds) 128"

definition calculateNumberImages :: "Rectangle \<Rightarrow> int \<times> int" where
  "calculateNumberImages bounds =
     (let y = go_quot (MaxY bounds - MinY bounds) 128;
          x = calculateStride bounds
      in (x, y))"

text \<open>
  What the file system answers to \<open>getSourceImage\<close>: \<open>os.Open\<close> fails, or \<open>png.Decode\<close>
  fails, or the image is decoded. In each failing case the function prints a message to
  the standard error stream and returns \<open>nil\<close>.
\<close>

datatype open_error = NotExist | Permission | OtherOpenError

datatype source_file = OpenFails open_error | DecodeFails | Decoded Image

fun getSourceImage :: "source_file \<Rightarrow> Image option" where
  "getSourceImage (OpenFails e) = None"
| "getSourceImage DecodeFails = None"
| "getSourceImage (Decoded img) = Some img"

definition GetX :: "ImageSet \<Rightarrow> int \<Rightarrow> panic + int" where
  "GetX p index = (if stride p = 0 then Inl IntegerDivideByZero else Inr (go_rem index (stride p)))"

definition GetY :: "ImageSet \<Rightarrow> int \<Rightarrow> panic + int" where
  "GetY p index = (if stride p = 0 then Inl IntegerDivideByZero else Inr (go_quot index (stride p)))"

definition GetOrientationLabel :: "byte \<Rightarrow> string" where
  "GetOrientationLabel orientation =
     (let v = orientation AND 0x7 in
      if v = 0 then ''Standard''
      else if v = 1 then ''Rotated 90 degrees''
      else if v = 2 then ''Rotated 180 degrees''
      else if v = 3 then ''Rotated 270 degrees''
      else if v = 4 then ''Mirrored''
      else if v = 5 then ''Mirrored + Rotated 90 degrees''
      else if v = 6 then ''Mirrored + Rotated 180 degrees''
      else if v = 7 then ''Mirrored + Rotated 270 degrees''
      else [])"

text \<open>The eight labels of the switch in \<open>GetOrientationLabel\<close>, in the order of its cases.\<close>

definition orientation_labels :: "string list" where
  "orientation_labels =
     [''Standard'', ''Rotated 90 degrees'', ''Rotated 180 degrees'', ''Rotated 270 degrees'',
      ''Mirrored'', ''Mirrored + Rotated 90 degrees'', ''Mirrored + Rotated 180 degrees'',
      ''Mirrored + Rotated 270 degrees'']"

text \<open>
  The artifacts of a run: the files \<open>images/<key>.png\<close> that \<open>WriteImageFiles\<close> creates, one
  for each key of \<open>protoImages\<close>, and the table of \<open>report.html\<close> that \<open>WriteReport\<close>
  writes, one row for each entry of \<open>images\<close>: column, row, fingerprint and orientation
  label. The scaled size of the source image in the report is floating point and is
  left out.
\<close>

type_synonym report_row = "int \<times> int \<times> uint64 \<times> string"

record Artifacts =
  image_files :: "uint64 set"
  report :: "report_row list option"

definition no_artifacts :: Artifacts where
  "no_artifacts = \<lparr>image_files = {}, report = None\<rparr>"

definition WriteImageFiles :: "ImageSet \<Rightarrow> uint64 set" where
  "WriteImageFiles p = dom (protoImages p)"

fun WriteReport_rows :: "ImageSet \<Rightarrow> nat \<Rightarrow> uint64 list \<Rightarrow> panic + report_row list" where
  "WriteReport_rows p i [] = Inr []"
| "WriteReport_rows p i (v # vs) =
     (case GetX p (int i) of
        Inl e \<Rightarrow> Inl e
      | Inr x \<Rightarrow>
          (case GetY p (int i) of
             Inl e \<Rightarrow> Inl e
           | Inr y \<Rightarrow>
               (case get_index (orientations p) (int i) of
                  Inl e \<Rightarrow> Inl e
                | Inr orientation \<Rightarrow>
                    (case WriteReport_rows p (Suc i) vs of
                       Inl e \<Rightarrow> Inl e
                     | Inr rows \<Rightarrow>
                         Inr ((x, y, v, GetOrientationLabel orientation) # rows)))))"

definition WriteReport :: "ImageSet \<Rightarrow> panic + report_row list" where
  "WriteReport p = WriteReport_rows p 0 (images p)"

text \<open>The two loops of \<open>Process\<close> over the grid: \<open>x\<close> inside, \<open>y\<close> outside.\<close>

fun Process_cols :: "Image \<Rightarrow> int \<Rightarrow> int list \<Rightarrow> ImageSet \<Rightarrow> panic + ImageSet" where
  "Process_cols sourceImage y [] p = Inr p"
| "Process_cols sourceImage y (x # xs) p =
     (case AddImage p
             (Crop sourceImage (Rect (x * 128) (y * 128) ((x + 1) * 128) ((y + 1) * 128))) x y of
        Inl e \<Rightarrow> Inl e
      | Inr p' \<Rightarrow> Process_cols sourceImage y xs p')"

fun Process_rows :: "Image \<Rightarrow> int list \<Rightarrow> int list \<Rightarrow> ImageSet \<Rightarrow> panic + ImageSet" where
  "Process_rows sourceImage xs [] p = Inr p"
| "Process_rows sourceImage xs (y # ys) p =
     (case Process_cols sourceImage y xs p of
        Inl e \<Rightarrow> Inl e
      | Inr p' \<Rightarrow> Process_rows sourceImage xs ys p')"

text \<open>
  The allocation of the two arrays in \<open>Process\<close>: \<open>make\<close> panics on a negative length.
\<close>

definition Process_alloc :: "ImageSet \<Rightarrow> int \<Rightarrow> int \<Rightarrow> panic + ImageSet" where
  "Process_alloc p numX numY =
     (if numX * numY < 0 then Inl MakeSliceLenOutOfRange
      else Inr (p\<lparr>stride := numX,
                  images := replicate (nat (numX * numY)) 0,
                  orientations := replicate (nat (numX * numY)) 0\<rparr>))"

text \<open>The extraction pass of \<open>Process\<close>: the allocation and the two loops.\<close>

definition Process_extract :: "ImageSet \<Rightarrow> Image \<Rightarrow> panic + ImageSet" where
  "Process_extract p sourceImage =
     (let bounds = Bounds sourceImage;
          (numX, numY) = calculateNumberImages bounds
      in case Process_alloc p numX numY of
           Inl e \<Rightarrow> Inl e
         | Inr p' \<Rightarrow> Process_rows sourceImage [0..numX - 1] [0..numY - 1] p')"

definition Process :: "ImageSet \<Rightarrow> source_file \<Rightarrow> panic + ImageSet \<times> Artifacts" where
  "Process p file =
     (case getSourceImage file of
        None \<Rightarrow> Inr (p, no_artifacts)
      | Some sourceImage \<Rightarrow>
          (case Process_extract p sourceImage of
             Inl e \<Rightarrow> Inl e
           | Inr p' \<Rightarrow>
               (case WriteReport p' of
                  Inl e \<Rightarrow> Inl e
                | Inr rows \<Rightarrow>
                    Inr (p', \<lparr>image_files = WriteImageFiles p', report = Some rows\<rparr>))))"

section \<open>Views of the extraction pass and of the orientations\<close>

text \<open>
  The cells in the order in which the two loops of \<open>Process\<close> visit them, and the pass as
  one loop over a list of cells; \<open>Process_rows\<close> is this loop on \<open>grid\<close>. A prefix of
  \<open>grid\<close> is a point of the pass after one of its \<open>AddImage\<close> calls.
\<close>

definition tile :: "Image \<Rightarrow> int \<Rightarrow> int \<Rightarrow> Image" where
  "tile sourceImage x y =
     Crop sourceImage (Rect (x * 128) (y * 128) ((x + 1) * 128) ((y + 1) * 128))"

definition grid :: "int \<Rightarrow> int \<Rightarrow> (int \<times> int) list" where
  "grid numX numY = concat (map (\<lambda>y. map (\<lambda>x. (x, y)) [0..numX - 1]) [0..numY - 1])"

fun Process_cells :: "Image \<Rightarrow> (int \<times> int) list \<Rightarrow> ImageSet \<Rightarrow> panic + ImageSet" where
  "Process_cells sourceImage [] p = Inr p"
| "Process_cells sourceImage ((x, y) # cs) p =
     (case AddImage p (tile sourceImage x y) x y of
        Inl e \<Rightarrow> Inl e
      | Inr p' \<Rightarrow> Process_cells sourceImage cs p')"

text \<open>
  The inverse of the transform that builds \<open>images[i]\<close> in \<open>AddImage\<close>: a rotation by 90
  degrees is undone by one by 270 degrees and the other way round, a rotation by 180
  degrees and the mirror undo themselves, and a mirror followed by a rotation is undone
  by the inverse rotation followed by the mirror.
\<close>

definition unvariant :: "nat \<Rightarrow> Image \<Rightarrow> Image" where
  "unvariant i img =
     (if i = 0 then img
      else if i = 1 then Rotate270 img
      else if i = 2 then Rotate180 img
      else if i = 3 then Rotate90 img
      else if i = 4 then FlipH img
      else if i = 5 then FlipH (Rotate270 img)
      else if i = 6 then FlipH (Rotate180 img)
      else FlipH (Rotate90 img))"

text \<open>Every entry of the registry is stored under the fingerprint of its image.\<close>

definition keyed_by_hash :: "ImageSet \<Rightarrow> bool" where
  "keyed_by_hash p = (\<forall>k v. protoImages p k = Some v \<longrightarrow> Hash v = Inr k)"

section \<open>Views of the hash\<close>

text \<open>
  The four bytes of a channel value, most significant first, as \<open>convertUint32ToBytes\<close>
  writes them; the twelve bytes of the red, green and blue channels of a colour and the
  four of its alpha channel; and the pixels of an image in the order of \<open>Hash\<close>'s loops,
  row by row.
\<close>

definition be32 :: "uint32 \<Rightarrow> byte list" where
  "be32 v = [ucast (drop_bit 24 v AND 0xFF), ucast (drop_bit 16 v AND 0xFF),
             ucast (drop_bit 8 v AND 0xFF), ucast (v AND 0xFF)]"

fun rgb_bytes :: "color \<Rightarrow> byte list" where
  "rgb_bytes (r, g, b, a) = be32 r @ be32 g @ be32 b"

fun alpha_bytes :: "color \<Rightarrow> byte list" where
  "alpha_bytes (r, g, b, a) = be32 a"

definition pixels :: "Image \<Rightarrow> color list" where
  "pixels img =
     concat (map (\<lambda>y. map (\<lambda>x. At img x y) [MinX (Bounds img)..MaxX (Bounds img) - 1])
                 [MinY (Bounds img)..MaxY (Bounds img) - 1])"

text \<open>
  The byte sequence of the specification: for every pixel in that order the sixteen
  bytes of its four channels R, G, B, A.
\<close>

definition serialized :: "color list \<Rightarrow> byte list" where
  "serialized cs = concat (map (\<lambda>c. rgb_bytes c @ alpha_bytes c) cs)"

text \<open>
  The byte sequence that the loops of \<open>Hash\<close> leave in \<open>data\<close>: twelve bytes for every
  pixel, then the alpha channel of the last pixel, then the zeros that \<open>make\<close> put there.
\<close>

definition written :: "color list \<Rightarrow> byte list" where
  "written cs =
     (if cs = [] then []
      else concat (map rgb_bytes cs) @ alpha_bytes (last cs) @ replicate (4 * length cs - 4) 0)"


text \<open>The two loops of \<open>Hash\<close> as one loop over a list of colours.\<close>

fun hash_colors :: "color list \<Rightarrow> byte list \<times> nat \<Rightarrow> panic + byte list \<times> nat" where
  "hash_colors [] st = Inr st"
| "hash_colors (c # cs) st =
     (case Hash_pixel c st of Inl e \<Rightarrow> Inl e | Inr st' \<Rightarrow> hash_colors cs st')"

section \<open>Example inputs\<close>

text \<open>
  A pixel pattern without symmetry, opaque, with red growing along \<open>x\<close> and green along
  \<open>y\<close>; and an image set with one registered prototype and room for one cell.
\<close>

definition example_pixel :: "int \<Rightarrow> int \<Rightarrow> color" where
  "example_pixel x y = (word_of_int (257 * (x mod 256)), word_of_int (257 * (y mod 256)), 0, 65535)"

definition example_set :: ImageSet where
  "example_set = \<lparr>SourceImagePath = ''in.png'',
     protoImages = [7 \<mapsto> NewNRGBA 1 1 (\<lambda>x y. (0, 0, 0, 0))],
     images = [0], orientations = [0], stride = 1\<rparr>"

text \<open>A source image of a given size with that pattern, as \<open>png.Decode\<close> returns it.\<close>

definition example_source :: "int \<Rightarrow> int \<Rightarrow> Image" where
  "example_source w h = \<lparr>Bounds = Rect 0 0 w h, At = example_pixel\<rparr>"

text \<open>
  Two tiles that differ in the alpha channel of the pixel at (0, 0) only: transparent
  black everywhere, and the same with that pixel opaque.
\<close>

definition alpha_a :: Image where
  "alpha_a = NewNRGBA 128 128 (\<lambda>x y. (0, 0, 0, 0))"

definition alpha_b :: Image where
  "alpha_b = NewNRGBA 128 128 (\<lambda>x y. if x = 0 \<and> y = 0 then (0, 0, 0, 65535) else (0, 0, 0, 0))"

section \<open>Hash returns on every well-formed image\<close>

lemma length_convertUint32ToBytes [simp]: "length (convertUint32ToBytes v data pos) = length data"
  by (simp add: convertUint32ToBytes_def)

lemma Hash_pixel_total:
  assumes "pos + 16 \<le> length data"
  shows "\<exists>data'. Hash_pixel c (data, pos) = Inr (data', pos + 12) \<and> length data' = length data"
  using assms by (cases c) (simp add: Let_def)

lemma Hash_cols_total:
  assumes "xs = [] \<or> pos + 12 * length xs + 4 \<le> length data"
  shows "\<exists>data'. Hash_cols img y xs (data, pos) = Inr (data', pos + 12 * length xs)
           \<and> length data' = length data"
  using assms
proof (induction xs arbitrary: data pos)
  case Nil
  then show ?case by simp
next
  case (Cons x xs)
  then have b: "pos + 16 \<le> length data" by simp
  from Hash_pixel_total[OF b, of "At img x y"] obtain d1 where
    d1: "Hash_pixel (At img x y) (data, pos) = Inr (d1, pos + 12)" "length d1 = length data"
    by blast
  have "xs = [] \<or> (pos + 12) + 12 * length xs + 4 \<le> length d1"
    using Cons.prems d1(2) by (cases xs) auto
  from Cons.IH[OF this] obtain d2 where
    "Hash_cols img y xs (d1, pos + 12) = Inr (d2, pos + 12 + 12 * length xs)"
    "length d2 = length d1" by blast
  with d1 show ?case by simp
qed

lemma Hash_rows_total:
  assumes "xs = [] \<or> ys = [] \<or> pos + 12 * (length ys * length xs) + 4 \<le> length data"
  shows "\<exists>data'. Hash_rows img xs ys (data, pos) = Inr (data', pos + 12 * (length ys * length xs))
           \<and> length data' = length data"
  using assms
proof (induction ys arbitrary: data pos)
  case Nil
  then show ?case by simp
next
  case (Cons y ys)
  have "xs = [] \<or> pos + 12 * length xs + 4 \<le> length data"
    using Cons.prems by auto
  from Hash_cols_total[OF this, of img y] obtain d1 where
    d1: "Hash_cols img y xs (data, pos) = Inr (d1, pos + 12 * length xs)" "length d1 = length data"
    by blast
  have "xs = [] \<or> ys = [] \<or> (pos + 12 * length xs) + 12 * (length ys * length xs) + 4 \<le> length d1"
    using Cons.prems d1(2) by (auto simp: algebra_simps)
  from Cons.IH[OF this] obtain d2 where
    "Hash_rows img xs ys (d1, pos + 12 * length xs) = Inr (d2, pos + 12 * length xs + 12 * (length ys * length xs))"
    "length d2 = length d1" by blast
  with d1 show ?case by (simp add: algebra_simps)
qed

lemma Hash_data_total:
  assumes "well_formed (Bounds img)"
  shows "\<exists>data. Hash_data img = Inr data \<and> length data = nat (Dx (Bounds img) * Dy (Bounds img) * 16)"
proof -
  let ?r = "Bounds img"
  let ?xs = "[MinX ?r..MaxX ?r - 1]" and ?ys = "[MinY ?r..MaxY ?r - 1]"
  let ?size = "(MaxX ?r - MinX ?r) * (MaxY ?r - MinY ?r) * 16"
  from assms have w: "0 \<le> MaxX ?r - MinX ?r" and h: "0 \<le> MaxY ?r - MinY ?r"
    by (simp_all add: well_formed_def)
  then have size: "\<not> ?size < 0" by (simp add: not_less)
  have lx: "length ?xs = nat (MaxX ?r - MinX ?r)" and ly: "length ?ys = nat (MaxY ?r - MinY ?r)"
    by simp_all
  have "?xs = [] \<or> ?ys = [] \<or>
        0 + 12 * (length ?ys * length ?xs) + 4 \<le> length (replicate (nat ?size) (0::byte))"
  proof (cases "MaxX ?r - MinX ?r = 0 \<or> MaxY ?r - MinY ?r = 0")
    case True
    then show ?thesis by auto
  next
    case False
    with w h have pos: "0 < MaxX ?r - MinX ?r" "0 < MaxY ?r - MinY ?r" by auto
    define a where "a = nat (MaxX ?r - MinX ?r)"
    define b where "b = nat (MaxY ?r - MinY ?r)"
    have "1 \<le> a" "1 \<le> b" using pos by (simp_all add: a_def b_def)
    then have ab: "1 \<le> b * a" by (metis mult_le_mono nat_mult_1)
    have "nat ?size = a * b * 16"
      using pos by (simp add: a_def b_def nat_mult_distrib)
    moreover have "12 * (b * a) + 4 \<le> a * b * 16" using ab by (simp add: algebra_simps)
    ultimately show ?thesis by (simp add: lx ly a_def b_def)
  qed
  from Hash_rows_total[OF this, of img] obtain d where
    "Hash_rows img ?xs ?ys (replicate (nat ?size) 0, 0) = Inr (d, 0 + 12 * (length ?ys * length ?xs))"
    "length d = length (replicate (nat ?size) (0::byte))" by blast
  then show ?thesis using size
    by (simp add: Hash_data_def Let_def Dx_def Dy_def del: length_upto)
qed

lemma Hash_total:
  assumes "well_formed (Bounds img)"
  shows "\<exists>h. Hash img = Inr h"
  using Hash_data_total[OF assms] by (auto simp: Hash_def)

section \<open>The library's images and the scan\<close>

subsection \<open>Bounds of the library's images\<close>

lemma Bounds_NewNRGBA [simp]:
  "Bounds (NewNRGBA w h f) = \<lparr>MinX = 0, MinY = 0, MaxX = w, MaxY = h\<rparr>"
  by (simp add: NewNRGBA_def)

lemma well_formed_origin [simp]:
  "well_formed \<lparr>MinX = 0, MinY = 0, MaxX = w, MaxY = h\<rparr> = (0 \<le> w \<and> 0 \<le> h)"
  by (simp add: well_formed_def)

lemma well_formed_D: "well_formed r \<Longrightarrow> 0 \<le> Dx r \<and> 0 \<le> Dy r"
  by (simp add: well_formed_def Dx_def Dy_def)

lemma well_formed_Intersect: "well_formed (Intersect r s)"
  by (auto simp: Intersect_def Let_def Empty_def well_formed_def)

lemma well_formed_Crop [simp]: "well_formed (Bounds (Crop img rect))"
  using well_formed_D[OF well_formed_Intersect, of rect "Bounds img"]
  by (simp add: Crop_def Let_def)

lemma well_formed_tile [simp]: "well_formed (Bounds (tile src x y))"
  by (simp add: tile_def)

lemma well_formed_FlipH [simp]: "well_formed (Bounds img) \<Longrightarrow> well_formed (Bounds (FlipH img))"
  using well_formed_D[of "Bounds img"] by (simp add: FlipH_def Let_def)

lemma well_formed_Rotate90 [simp]: "well_formed (Bounds img) \<Longrightarrow> well_formed (Bounds (Rotate90 img))"
  using well_formed_D[of "Bounds img"] by (simp add: Rotate90_def Let_def)

lemma well_formed_Rotate180 [simp]: "well_formed (Bounds img) \<Longrightarrow> well_formed (Bounds (Rotate180 img))"
  using well_formed_D[of "Bounds img"] by (simp add: Rotate180_def Let_def)

lemma well_formed_Rotate270 [simp]: "well_formed (Bounds img) \<Longrightarrow> well_formed (Bounds (Rotate270 img))"
  using well_formed_D[of "Bounds img"] by (simp add: Rotate270_def Let_def)

lemma well_formed_variants:
  "well_formed (Bounds img) \<Longrightarrow> \<forall>v \<in> set (variants img). well_formed (Bounds v)"
  by (simp add: variants_def)

subsection \<open>The scan of AddImage\<close>

lemma scan_keeps_firstHash:
  "AddImage_scan p index i ims fh = Inr (found, fh', p') \<Longrightarrow> i \<noteq> 0 \<Longrightarrow> fh' = fh"
proof (induction ims arbitrary: i)
  case Nil
  then show ?case by simp
next
  case (Cons im ims)
  then show ?case
    by (auto simp: Let_def split: sum.splits if_splits)
qed

lemma scan_not_found:
  assumes "list_all2 (\<lambda>im h. Hash im = Inr h) ims hs"
    and "\<forall>h \<in> set hs. protoImages p h = None"
  shows "AddImage_scan p index i ims fh =
           Inr (False, (if i = 0 \<and> hs \<noteq> [] then hd hs else fh), p)"
  using assms
proof (induction ims hs arbitrary: i fh rule: list_all2_induct)
  case Nil
  then show ?case by simp
next
  case (Cons im ims h hs)
  then show ?case by (simp add: Let_def)
qed

lemma scan_found:
  assumes "list_all2 (\<lambda>im h. Hash im = Inr h) ims hs"
    and "j < length hs" and "protoImages p (hs ! j) \<noteq> None"
    and "\<forall>k<j. protoImages p (hs ! k) = None"
    and "0 \<le> index" and "index < int (length (orientations p))"
    and "index < int (length (images p))"
  shows "AddImage_scan p index i ims fh =
           Inr (True, (if i = 0 then hd hs else fh),
                p\<lparr>orientations := (orientations p)[nat index := of_nat (i + j)],
                  images := (images p)[nat index := hs ! j]\<rparr>)"
  using assms
proof (induction ims hs arbitrary: i fh j rule: list_all2_induct)
  case Nil
  then show ?case by simp
next
  case (Cons im ims h hs)
  show ?case
  proof (cases j)
    case 0
    with Cons.prems Cons.hyps show ?thesis
      by (auto simp: Let_def set_index_def)
  next
    case (Suc j')
    with Cons.prems have h: "protoImages p h = None" by auto
    have "AddImage_scan p index (Suc i) ims (if i = 0 then h else fh) =
        Inr (True, (if Suc i = 0 then hd hs else (if i = 0 then h else fh)),
          p\<lparr>orientations := (orientations p)[nat index := of_nat (Suc i + j')],
            images := (images p)[nat index := hs ! j']\<rparr>)"
      using Cons.prems Suc by (intro Cons.IH) auto
    with Cons.hyps h Suc show ?thesis by (simp add: Let_def)
  qed
qed

lemma scan_result:
  assumes "AddImage_scan p index i ims fh = Inr (found, fh', p')"
  shows "protoImages p' = protoImages p \<and> stride p' = stride p
         \<and> SourceImagePath p' = SourceImagePath p
         \<and> (\<not> found \<longrightarrow> p' = p)
         \<and> (\<not> found \<and> i = 0 \<and> ims \<noteq> [] \<longrightarrow> protoImages p fh' = None \<and> Hash (hd ims) = Inr fh')"
  using assms
proof (induction ims arbitrary: i fh)
  case Nil
  then show ?case by simp
next
  case (Cons im ims)
  show ?case
  proof (cases "Hash im")
    case (Inl e)
    with Cons.prems show ?thesis by simp
  next
    case (Inr h)
    show ?thesis
    proof (cases "protoImages p h = None")
      case True
      with Inr Cons.prems have rec:
        "AddImage_scan p index (Suc i) ims (if i = 0 then h else fh) = Inr (found, fh', p')"
        by (simp add: Let_def)
      from scan_keeps_firstHash[OF rec] have "fh' = (if i = 0 then h else fh)" by simp
      with Cons.IH[OF rec] True Inr show ?thesis by auto
    next
      case False
      with Inr Cons.prems show ?thesis
        by (auto simp: Let_def set_index_def split: sum.splits if_splits)
    qed
  qed
qed

lemma list_all2_choice:
  "\<forall>v \<in> set vs. \<exists>h. P v h \<Longrightarrow> \<exists>hs. list_all2 P vs hs"
proof (induction vs)
  case Nil
  then show ?case by simp
next
  case (Cons v vs)
  then obtain h hs where "P v h" "list_all2 P vs hs" by auto
  then have "list_all2 P (v # vs) (h # hs)" by simp
  then show ?case by blast
qed

lemma variants_hashes:
  assumes "well_formed (Bounds img)"
  shows "\<exists>hs. list_all2 (\<lambda>im h. Hash im = Inr h) (variants img) hs"
proof -
  have "\<forall>v \<in> set (variants img). \<exists>h. Hash v = Inr h"
    using well_formed_variants[OF assms] Hash_total by blast
  then show ?thesis by (rule list_all2_choice)
qed

section \<open>AddImage\<close>

lemma length_variants [simp]: "length (variants img) = 8"
  by (simp add: variants_def)

lemma hd_variants [simp]: "hd (variants img) = img"
  by (simp add: variants_def)

lemma variants_0 [simp]: "variants img ! 0 = img"
  by (simp add: variants_def)

lemma scan_found_result:
  assumes "AddImage_scan p index i ims fh = Inr (True, fh', p')"
  shows "\<exists>j h. j < length ims \<and> Hash (ims ! j) = Inr h \<and> protoImages p h \<noteq> None
           \<and> 0 \<le> index \<and> index < int (length (orientations p)) \<and> index < int (length (images p))
           \<and> p' = p\<lparr>orientations := (orientations p)[nat index := of_nat (i + j)],
                     images := (images p)[nat index := h]\<rparr>"
  using assms
proof (induction ims arbitrary: i fh)
  case Nil
  then show ?case by simp
next
  case (Cons im ims)
  show ?case
  proof (cases "Hash im")
    case (Inl e)
    with Cons.prems show ?thesis by simp
  next
    case (Inr h)
    show ?thesis
    proof (cases "protoImages p h = None")
      case True
      with Inr Cons.prems have
        "AddImage_scan p index (Suc i) ims (if i = 0 then h else fh) = Inr (True, fh', p')"
        by (simp add: Let_def)
      from Cons.IH[OF this] obtain j h' where
        "j < length ims" "Hash (ims ! j) = Inr h'" "protoImages p h' \<noteq> None"
        "0 \<le> index" "index < int (length (orientations p))" "index < int (length (images p))"
        "p' = p\<lparr>orientations := (orientations p)[nat index := of_nat (Suc i + j)],
                 images := (images p)[nat index := h']\<rparr>"
        by blast
      then have "Suc j < length (im # ims) \<and> Hash ((im # ims) ! Suc j) = Inr h'
           \<and> protoImages p h' \<noteq> None
           \<and> 0 \<le> index \<and> index < int (length (orientations p)) \<and> index < int (length (images p))
           \<and> p' = p\<lparr>orientations := (orientations p)[nat index := of_nat (i + Suc j)],
                     images := (images p)[nat index := h']\<rparr>"
        by simp
      then show ?thesis by blast
    next
      case False
      with Inr Cons.prems have
        "0 < length (im # ims) \<and> Hash ((im # ims) ! 0) = Inr h \<and> protoImages p h \<noteq> None
           \<and> 0 \<le> index \<and> index < int (length (orientations p)) \<and> index < int (length (images p))
           \<and> p' = p\<lparr>orientations := (orientations p)[nat index := of_nat (i + 0)],
                     images := (images p)[nat index := h]\<rparr>"
        by (auto simp: Let_def set_index_def split: sum.splits if_splits)
      then show ?thesis by blast
    qed
  qed
qed

text \<open>The two shapes of a state that AddImage returns.\<close>

lemma AddImage_Inr:
  assumes "AddImage p img x y = Inr p'"
  shows "0 \<le> y * stride p + x \<and> y * stride p + x < int (length (orientations p))
         \<and> y * stride p + x < int (length (images p))
         \<and> ((\<exists>j h. j < 8 \<and> Hash (variants img ! j) = Inr h \<and> protoImages p h \<noteq> None
                \<and> p' = p\<lparr>orientations := (orientations p)[nat (y * stride p + x) := of_nat j],
                          images := (images p)[nat (y * stride p + x) := h]\<rparr>)
            \<or> (\<exists>h. Hash img = Inr h \<and> protoImages p h = None
                \<and> p' = p\<lparr>protoImages := (protoImages p)(h \<mapsto> img),
                          images := (images p)[nat (y * stride p + x) := h],
                          orientations := (orientations p)[nat (y * stride p + x) := 0]\<rparr>))"
proof -
  let ?index = "y * stride p + x"
  from assms obtain found fh q where
    scan: "AddImage_scan p ?index 0 (variants img) 0 = Inr (found, fh, q)"
    by (auto simp: AddImage_def Let_def split: sum.splits)
  show ?thesis
  proof (cases found)
    case True
    with scan assms have "p' = q" by (simp add: AddImage_def Let_def)
    with scan_found_result[of p ?index 0 "variants img" 0 fh q] scan True
    show ?thesis by auto
  next
    case False
    from scan_result[OF scan] False have q: "q = p" and
      fh: "protoImages p fh = None" "Hash img = Inr fh"
      by (auto simp: variants_def)
    from assms scan False q have
      "0 \<le> ?index \<and> ?index < int (length (orientations p)) \<and> ?index < int (length (images p))
       \<and> p' = p\<lparr>protoImages := (protoImages p)(fh \<mapsto> img),
                 images := (images p)[nat ?index := fh],
                 orientations := (orientations p)[nat ?index := 0]\<rparr>"
      by (auto simp: AddImage_def Let_def set_index_def split: sum.splits if_splits)
    with fh show ?thesis by blast
  qed
qed

lemma AddImage_char:
  assumes wf: "well_formed (Bounds img)"
    and idx: "0 \<le> y * stride p + x" "y * stride p + x < int (length (images p))"
      "y * stride p + x < int (length (orientations p))"
    and hs: "list_all2 (\<lambda>im h. Hash im = Inr h) (variants img) hs"
  shows "(\<exists>i<8. protoImages p (hs ! i) \<noteq> None \<and> (\<forall>j<i. protoImages p (hs ! j) = None)
            \<and> AddImage p img x y =
                Inr (p\<lparr>orientations := (orientations p)[nat (y * stride p + x) := of_nat i],
                       images := (images p)[nat (y * stride p + x) := hs ! i]\<rparr>))
         \<or> ((\<forall>i<8. protoImages p (hs ! i) = None)
            \<and> AddImage p img x y =
                Inr (p\<lparr>protoImages := (protoImages p)(hs ! 0 \<mapsto> img),
                       images := (images p)[nat (y * stride p + x) := hs ! 0],
                       orientations := (orientations p)[nat (y * stride p + x) := 0]\<rparr>))"
proof -
  let ?index = "y * stride p + x"
  from hs have len: "length hs = 8" by (auto dest: list_all2_lengthD)
  then have hd: "hd hs = hs ! 0" by (cases hs) auto
  show ?thesis
  proof (cases "\<exists>i<8. protoImages p (hs ! i) \<noteq> None")
    case True
    define i where "i = (LEAST i. i < 8 \<and> protoImages p (hs ! i) \<noteq> None)"
    from True have i: "i < 8 \<and> protoImages p (hs ! i) \<noteq> None"
      unfolding i_def by (rule LeastI_ex)
    have least: "\<forall>j<i. protoImages p (hs ! j) = None"
    proof (intro allI impI)
      fix j assume "j < i"
      then have "\<not> (j < 8 \<and> protoImages p (hs ! j) \<noteq> None)"
        unfolding i_def by (rule not_less_Least)
      with \<open>j < i\<close> i show "protoImages p (hs ! j) = None" by auto
    qed
    from i len have "i < length hs" by simp
    from scan_found[OF hs this _ least idx(1) idx(3) idx(2), of 0 0] i
    have "AddImage_scan p ?index 0 (variants img) 0 =
        Inr (True, hd hs, p\<lparr>orientations := (orientations p)[nat ?index := of_nat i],
                            images := (images p)[nat ?index := hs ! i]\<rparr>)"
      by simp
    then have "AddImage p img x y =
        Inr (p\<lparr>orientations := (orientations p)[nat ?index := of_nat i],
               images := (images p)[nat ?index := hs ! i]\<rparr>)"
      by (simp add: AddImage_def Let_def)
    with i least show ?thesis by blast
  next
    case False
    then have none: "\<forall>i<8. protoImages p (hs ! i) = None" by auto
    then have "\<forall>h \<in> set hs. protoImages p h = None"
      using len by (auto simp: in_set_conv_nth)
    from scan_not_found[OF hs this, of ?index 0 0] len hd
    have "AddImage_scan p ?index 0 (variants img) 0 = Inr (False, hs ! 0, p)"
      by auto
    then have "AddImage p img x y =
        Inr (p\<lparr>protoImages := (protoImages p)(hs ! 0 \<mapsto> img),
               images := (images p)[nat ?index := hs ! 0],
               orientations := (orientations p)[nat ?index := 0]\<rparr>)"
      using idx by (simp add: AddImage_def Let_def set_index_def)
    with none show ?thesis by blast
  qed
qed

lemma AddImage_total:
  assumes "well_formed (Bounds img)"
    and "0 \<le> y * stride p + x" "y * stride p + x < int (length (images p))"
      "y * stride p + x < int (length (orientations p))"
  shows "\<exists>p'. AddImage p img x y = Inr p'"
proof -
  from variants_hashes[OF assms(1)] obtain hs where
    "list_all2 (\<lambda>im h. Hash im = Inr h) (variants img) hs" by blast
  from AddImage_char[OF assms this] show ?thesis by blast
qed

text \<open>What every returning call of AddImage keeps and establishes.\<close>

lemma AddImage_frame:
  assumes "AddImage p img x y = Inr p'"
  shows "stride p' = stride p" "length (images p') = length (images p)"
    "length (orientations p') = length (orientations p)"
    "SourceImagePath p' = SourceImagePath p"
  using AddImage_Inr[OF assms] by auto

lemma AddImage_mono:
  assumes "AddImage p img x y = Inr p'" and "protoImages p k = Some v"
  shows "protoImages p' k = Some v"
  using AddImage_Inr[OF assms(1)] assms(2) by auto

lemma AddImage_cell_registered:
  assumes "AddImage p img x y = Inr p'"
  shows "protoImages p' (images p' ! nat (y * stride p + x)) \<noteq> None"
  using AddImage_Inr[OF assms] by auto

lemma AddImage_other_cells:
  assumes "AddImage p img x y = Inr p'" and "j \<noteq> nat (y * stride p + x)"
  shows "images p' ! j = images p ! j" "orientations p' ! j = orientations p ! j"
  using AddImage_Inr[OF assms(1)] assms(2) by auto

lemma AddImage_keyed:
  assumes "AddImage p img x y = Inr p'" and "keyed_by_hash p"
  shows "keyed_by_hash p'"
  using AddImage_Inr[OF assms(1)] assms(2)
  by (auto simp: keyed_by_hash_def split: if_splits)

section \<open>Process\<close>

subsection \<open>The grid\<close>

lemma go_quot_nonneg: "0 \<le> a \<Longrightarrow> 0 < b \<Longrightarrow> go_quot a b = a div b"
  by (simp add: go_quot_def)

lemma go_rem_nonneg: "0 \<le> a \<Longrightarrow> 0 < b \<Longrightarrow> go_rem a b = a mod b"
  by (simp add: go_rem_def go_quot_nonneg minus_mult_div_eq_mod)

lemma calculateNumberImages_well_formed:
  assumes "well_formed r"
  shows "calculateNumberImages r = (Dx r div 128, Dy r div 128)"
  using well_formed_D[OF assms]
  by (simp add: calculateNumberImages_def calculateStride_def Let_def go_quot_nonneg Dx_def Dy_def)

lemma Process_cells_append:
  "Process_cells src (cs @ ds) p =
     (case Process_cells src cs p of Inl e \<Rightarrow> Inl e | Inr p' \<Rightarrow> Process_cells src ds p')"
  by (induction cs arbitrary: p) (auto split: sum.splits)

lemma Process_cols_cells:
  "Process_cols src y xs p = Process_cells src (map (\<lambda>x. (x, y)) xs) p"
  by (induction xs arbitrary: p) (auto simp: tile_def split: sum.splits)

lemma Process_rows_cells:
  "Process_rows src xs ys p = Process_cells src (concat (map (\<lambda>y. map (\<lambda>x. (x, y)) xs) ys)) p"
  by (induction ys arbitrary: p)
     (auto simp: Process_cols_cells Process_cells_append split: sum.splits)

lemma Process_rows_grid:
  "Process_rows src [0..numX - 1] [0..numY - 1] p = Process_cells src (grid numX numY) p"
  by (simp add: Process_rows_cells grid_def)

lemma set_grid: "set (grid numX numY) = {0..numX - 1} \<times> {0..numY - 1}"
  by (auto simp: grid_def)

lemma in_grid: "(x, y) \<in> set (grid numX numY) \<longleftrightarrow> 0 \<le> x \<and> x < numX \<and> 0 \<le> y \<and> y < numY"
  by (auto simp: set_grid)

lemma cell_index_bounds:
  fixes x y numX numY :: int
  assumes "0 \<le> x" "x < numX" "0 \<le> y" "y < numY"
  shows "0 \<le> y * numX + x" "y * numX + x < numX * numY"
proof -
  from assms show "0 \<le> y * numX + x" by simp
  have "y * numX + x < y * numX + numX" using assms by simp
  also have "\<dots> = (y + 1) * numX" by (simp add: algebra_simps)
  also have "\<dots> \<le> numY * numX" using assms by (intro mult_right_mono) auto
  finally show "y * numX + x < numX * numY" by (simp add: mult.commute)
qed

subsection \<open>The pass over a list of cells\<close>

lemma AddImage_registered:
  assumes "AddImage p img x y = Inr p'" and "protoImages p (images p ! j) \<noteq> None"
  shows "protoImages p' (images p' ! j) \<noteq> None"
proof (cases "j = nat (y * stride p + x)")
  case True
  with AddImage_cell_registered[OF assms(1)] show ?thesis by simp
next
  case False
  from AddImage_other_cells(1)[OF assms(1) False] assms(2)
  obtain v where "protoImages p (images p' ! j) = Some v" by auto
  from AddImage_mono[OF assms(1) this] show ?thesis by simp
qed

lemma Process_cells_run:
  assumes "stride p = numX" and "length (images p) = nat (numX * numY)"
    and "length (orientations p) = nat (numX * numY)"
    and "\<forall>c \<in> set cs. 0 \<le> fst c \<and> fst c < numX \<and> 0 \<le> snd c \<and> snd c < numY"
  shows "\<exists>p'. Process_cells src cs p = Inr p'
           \<and> stride p' = numX \<and> length (images p') = nat (numX * numY)
           \<and> length (orientations p') = nat (numX * numY)
           \<and> SourceImagePath p' = SourceImagePath p
           \<and> (\<forall>k v. protoImages p k = Some v \<longrightarrow> protoImages p' k = Some v)
           \<and> (\<forall>j. protoImages p (images p ! j) \<noteq> None \<longrightarrow> protoImages p' (images p' ! j) \<noteq> None)
           \<and> (\<forall>c \<in> set cs. protoImages p' (images p' ! nat (snd c * numX + fst c)) \<noteq> None)
           \<and> (keyed_by_hash p \<longrightarrow> keyed_by_hash p')"
  using assms
proof (induction cs arbitrary: p)
  case Nil
  then show ?case by simp
next
  case (Cons c cs)
  obtain x y where c: "c = (x, y)" by (cases c)
  with Cons.prems have xy: "0 \<le> x" "x < numX" "0 \<le> y" "y < numY" by auto
  from cell_index_bounds[OF xy] Cons.prems
  have "0 \<le> y * stride p + x" "y * stride p + x < int (length (images p))"
    "y * stride p + x < int (length (orientations p))"
    by auto
  from AddImage_total[OF well_formed_tile this] obtain p1 where
    p1: "AddImage p (tile src x y) x y = Inr p1" by blast
  note fr = AddImage_frame[OF p1]
  from fr Cons.prems have
    "stride p1 = numX" "length (images p1) = nat (numX * numY)"
    "length (orientations p1) = nat (numX * numY)"
    "\<forall>c \<in> set cs. 0 \<le> fst c \<and> fst c < numX \<and> 0 \<le> snd c \<and> snd c < numY"
    by auto
  from Cons.IH[OF this] obtain p' where p':
    "Process_cells src cs p1 = Inr p'"
    "stride p' = numX" "length (images p') = nat (numX * numY)"
    "length (orientations p') = nat (numX * numY)"
    "SourceImagePath p' = SourceImagePath p1"
    "\<forall>k v. protoImages p1 k = Some v \<longrightarrow> protoImages p' k = Some v"
    "\<forall>j. protoImages p1 (images p1 ! j) \<noteq> None \<longrightarrow> protoImages p' (images p' ! j) \<noteq> None"
    "\<forall>c \<in> set cs. protoImages p' (images p' ! nat (snd c * numX + fst c)) \<noteq> None"
    "keyed_by_hash p1 \<longrightarrow> keyed_by_hash p'"
    by blast
  have run: "Process_cells src (c # cs) p = Inr p'"
    using p1 p'(1) c by simp
  have mono: "\<forall>k v. protoImages p k = Some v \<longrightarrow> protoImages p' k = Some v"
    using AddImage_mono[OF p1] p'(6) by blast
  have reg: "\<forall>j. protoImages p (images p ! j) \<noteq> None \<longrightarrow> protoImages p' (images p' ! j) \<noteq> None"
    using AddImage_registered[OF p1] p'(7) by blast
  have "protoImages p1 (images p1 ! nat (y * numX + x)) \<noteq> None"
    using AddImage_cell_registered[OF p1] Cons.prems(1) by simp
  with p'(7) have "protoImages p' (images p' ! nat (y * numX + x)) \<noteq> None" by blast
  with p'(8) c have cells:
    "\<forall>c' \<in> set (c # cs). protoImages p' (images p' ! nat (snd c' * numX + fst c')) \<noteq> None"
    by simp
  have keyed: "keyed_by_hash p \<longrightarrow> keyed_by_hash p'"
    using AddImage_keyed[OF p1] p'(9) by blast
  from run p'(2,3,4) p'(5) fr(4) mono reg cells keyed show ?case by simp
qed

subsection \<open>The report\<close>

lemma WriteReport_rows_total:
  assumes "vs = [] \<or> stride p \<noteq> 0" and "i + length vs \<le> length (orientations p)"
  shows "\<exists>rows. WriteReport_rows p i vs = Inr rows \<and> length rows = length vs"
  using assms
proof (induction vs arbitrary: i)
  case Nil
  then show ?case by simp
next
  case (Cons v vs)
  then have "vs = [] \<or> stride p \<noteq> 0" "Suc i + length vs \<le> length (orientations p)" by auto
  from Cons.IH[OF this] obtain rows where
    "WriteReport_rows p (Suc i) vs = Inr rows" "length rows = length vs" by blast
  with Cons.prems show ?case
    by (simp add: GetX_def GetY_def get_index_def)
qed

subsection \<open>The extraction pass and the whole run\<close>

lemma Process_extract_run:
  assumes "well_formed (Bounds src)"
  shows "\<exists>p0 p'. Process_alloc p (Dx (Bounds src) div 128) (Dy (Bounds src) div 128) = Inr p0
           \<and> Process_extract p src = Process_cells src
                 (grid (Dx (Bounds src) div 128) (Dy (Bounds src) div 128)) p0
           \<and> Process_extract p src = Inr p'
           \<and> stride p0 = Dx (Bounds src) div 128
           \<and> length (images p0) = nat (Dx (Bounds src) div 128 * (Dy (Bounds src) div 128))
           \<and> length (orientations p0) = nat (Dx (Bounds src) div 128 * (Dy (Bounds src) div 128))
           \<and> protoImages p0 = protoImages p"
proof -
  let ?numX = "Dx (Bounds src) div 128" and ?numY = "Dy (Bounds src) div 128"
  from well_formed_D[OF assms] have nn: "0 \<le> ?numX" "0 \<le> ?numY"
    by (simp_all add: pos_imp_zdiv_nonneg_iff)
  then have prod: "\<not> ?numX * ?numY < 0" by (simp add: not_less)
  define p0 where "p0 = p\<lparr>stride := ?numX,
                  images := replicate (nat (?numX * ?numY)) 0,
                  orientations := replicate (nat (?numX * ?numY)) 0\<rparr>"
  have alloc: "Process_alloc p ?numX ?numY = Inr p0"
    using prod by (simp add: Process_alloc_def p0_def)
  have ext: "Process_extract p src = Process_cells src (grid ?numX ?numY) p0"
    using alloc
    by (simp add: Process_extract_def calculateNumberImages_well_formed[OF assms]
        Process_rows_grid)
  have "\<forall>c \<in> set (grid ?numX ?numY). 0 \<le> fst c \<and> fst c < ?numX \<and> 0 \<le> snd c \<and> snd c < ?numY"
    by (auto simp: set_grid)
  from Process_cells_run[of p0 ?numX ?numY "grid ?numX ?numY" src, OF _ _ _ this]
  obtain p' where "Process_cells src (grid ?numX ?numY) p0 = Inr p'"
    by (auto simp: p0_def)
  with alloc ext show ?thesis by (simp add: p0_def)
qed

section \<open>What Hash writes\<close>

lemma length_be32 [simp]: "length (be32 v) = 4"
  by (simp add: be32_def)

lemma length_rgb_bytes [simp]: "length (rgb_bytes c) = 12"
  by (cases c) simp

lemma length_alpha_bytes [simp]: "length (alpha_bytes c) = 4"
  by (cases c) simp

lemma convert_at:
  assumes "length X = 4"
  shows "convertUint32ToBytes v (W @ X @ Z) (length W) = W @ be32 v @ Z"
proof -
  from assms have "\<exists>x0 x1 x2 x3. X = [x0, x1, x2, x3]"
    by (auto simp: numeral_eq_Suc length_Suc_conv)
  then obtain x0 x1 x2 x3 where "X = [x0, x1, x2, x3]" by blast
  then show ?thesis
    by (simp add: convertUint32ToBytes_def be32_def list_update_append)
qed

lemma Hash_pixel_step:
  assumes "length X = 4" and "12 \<le> m"
  shows "Hash_pixel c (W @ X @ replicate m 0, length W) =
           Inr ((W @ rgb_bytes c) @ alpha_bytes c @ replicate (m - 12) 0, length W + 12)"
proof -
  obtain r g b a where c: "c = (r, g, b, a)" by (cases c)
  let ?z4 = "replicate 4 (0::byte)"
  let ?rest = "replicate (m - 12) (0::byte)"
  have z: "replicate m (0::byte) = ?z4 @ ?z4 @ ?z4 @ ?rest"
  proof -
    from assms(2) have "m = 4 + (4 + (4 + (m - 12)))" by simp
    then have "replicate m (0::byte) = replicate (4 + (4 + (4 + (m - 12)))) 0" by simp
    then show ?thesis by (simp only: replicate_add)
  qed
  have d1: "convertUint32ToBytes r (W @ X @ replicate m 0) (length W)
      = W @ be32 r @ ?z4 @ ?z4 @ ?z4 @ ?rest"
    using convert_at[OF assms(1)] z by simp
  have d2: "convertUint32ToBytes g (W @ be32 r @ ?z4 @ ?z4 @ ?z4 @ ?rest) (length W + 4)
      = W @ be32 r @ be32 g @ ?z4 @ ?z4 @ ?rest"
    using convert_at[of ?z4 g "W @ be32 r" "?z4 @ ?z4 @ ?rest"] by simp
  have d3: "convertUint32ToBytes b (W @ be32 r @ be32 g @ ?z4 @ ?z4 @ ?rest) (length W + 8)
      = W @ be32 r @ be32 g @ be32 b @ ?z4 @ ?rest"
    using convert_at[of ?z4 b "W @ be32 r @ be32 g" "?z4 @ ?rest"] by simp
  have d4: "convertUint32ToBytes a (W @ be32 r @ be32 g @ be32 b @ ?z4 @ ?rest) (length W + 12)
      = W @ be32 r @ be32 g @ be32 b @ be32 a @ ?rest"
    using convert_at[of ?z4 a "W @ be32 r @ be32 g @ be32 b" ?rest] by simp
  have len: "length (W @ X @ replicate m 0) = length W + 4 + m"
    using assms by simp
  show ?thesis
    using assms
    by (simp add: c Let_def len d1 d2 d3 d4 add.assoc del: replicate.simps)
qed


lemma hash_colors_append:
  "hash_colors (cs @ ds) st =
     (case hash_colors cs st of Inl e \<Rightarrow> Inl e | Inr st' \<Rightarrow> hash_colors ds st')"
  by (induction cs arbitrary: st) (auto split: sum.splits)

lemma Hash_cols_colors: "Hash_cols img y xs st = hash_colors (map (\<lambda>x. At img x y) xs) st"
  by (induction xs arbitrary: st) (auto split: sum.splits)

lemma Hash_rows_colors:
  "Hash_rows img xs ys st = hash_colors (concat (map (\<lambda>y. map (\<lambda>x. At img x y) xs) ys)) st"
  by (induction ys arbitrary: st)
     (auto simp: Hash_cols_colors hash_colors_append split: sum.splits)

lemma hash_colors_written:
  assumes "length X = 4" and "12 * length cs \<le> m"
  shows "hash_colors cs (W @ X @ replicate m 0, length W) =
           Inr ((W @ concat (map rgb_bytes cs)) @ (if cs = [] then X else alpha_bytes (last cs))
                  @ replicate (m - 12 * length cs) 0,
                length W + 12 * length cs)"
  using assms
proof (induction cs arbitrary: W X m)
  case Nil
  then show ?case by simp
next
  case (Cons c cs)
  then have m: "12 \<le> m" "12 * length cs \<le> m - 12" by simp_all
  have step: "Hash_pixel c (W @ X @ replicate m 0, length W) =
      Inr ((W @ rgb_bytes c) @ alpha_bytes c @ replicate (m - 12) 0, length (W @ rgb_bytes c))"
    using Hash_pixel_step[OF Cons.prems(1) m(1), of c W] by simp
  have "hash_colors cs ((W @ rgb_bytes c) @ alpha_bytes c @ replicate (m - 12) 0,
                        length (W @ rgb_bytes c)) =
      Inr (((W @ rgb_bytes c) @ concat (map rgb_bytes cs))
             @ (if cs = [] then alpha_bytes c else alpha_bytes (last cs))
             @ replicate (m - 12 - 12 * length cs) 0,
           length (W @ rgb_bytes c) + 12 * length cs)"
    by (rule Cons.IH) (simp_all add: m)
  with step show ?case by simp
qed

lemma length_pixels:
  "length (pixels img) = nat (MaxY (Bounds img) - MinY (Bounds img)) * nat (MaxX (Bounds img) - MinX (Bounds img))"
  by (simp add: pixels_def length_concat comp_def sum_list_triv)

lemma Hash_data_written:
  assumes "well_formed (Bounds img)"
  shows "Hash_data img = Inr (written (pixels img))"
proof -
  let ?r = "Bounds img"
  let ?size = "(MaxX ?r - MinX ?r) * (MaxY ?r - MinY ?r) * 16"
  let ?n = "length (pixels img)"
  from assms have w: "0 \<le> MaxX ?r - MinX ?r" and h: "0 \<le> MaxY ?r - MinY ?r"
    by (simp_all add: well_formed_def)
  then have size: "\<not> ?size < 0" by (simp add: not_less)
  have n: "nat ?size = 16 * ?n"
    using w h by (simp add: length_pixels nat_mult_distrib)
  have rows: "Hash_rows img [MinX ?r..MaxX ?r - 1] [MinY ?r..MaxY ?r - 1] st =
      hash_colors (pixels img) st" for st
    by (simp add: Hash_rows_colors pixels_def)
  show ?thesis
  proof (cases "pixels img = []")
    case True
    with n size rows show ?thesis by (simp add: Hash_data_def Let_def written_def)
  next
    case False
    then have pos: "1 \<le> ?n" by (cases "pixels img") auto
    then have "16 * ?n = 4 + (16 * ?n - 4)" by simp
    then have "replicate (16 * ?n) (0::byte) = replicate 4 0 @ replicate (16 * ?n - 4) 0"
      by (metis replicate_add)
    then have init: "(replicate (nat ?size) (0::byte), 0::nat) =
        ([] @ replicate 4 0 @ replicate (16 * ?n - 4) 0, length ([]::byte list))"
      using n by simp
    have "hash_colors (pixels img) ([] @ replicate 4 0 @ replicate (16 * ?n - 4) 0, length ([]::byte list)) =
        Inr (([] @ concat (map rgb_bytes (pixels img)))
               @ (if pixels img = [] then replicate 4 0 else alpha_bytes (last (pixels img)))
               @ replicate (16 * ?n - 4 - 12 * ?n) 0,
             length ([]::byte list) + 12 * ?n)"
      using pos by (intro hash_colors_written) simp_all
    with False have "hash_colors (pixels img) (replicate (nat ?size) 0, 0) =
        Inr (written (pixels img), 12 * ?n)"
      unfolding init by (simp add: written_def)
    with size rows show ?thesis by (simp add: Hash_data_def Let_def)
  qed
qed

lemma upto_as_upt: "0 \<le> n \<Longrightarrow> [0..n - 1] = map int [0..<nat n]"
proof (induction "nat n" arbitrary: n)
  case 0
  then show ?case by simp
next
  case (Suc k)
  then have n: "n = int k + 1" by linarith
  have "[0..int k] = [0..int k - 1] @ [int k]"
    by (simp add: upto_rec2)
  moreover have "[0..int k - 1] = map int [0..<nat (int k)]"
    using Suc.hyps(1)[of "int k"] by simp
  moreover have "nat n = Suc k" using Suc.hyps(2) by simp
  ultimately show ?case using n by simp
qed

lemma concat_grid_upt:
  "concat (map (\<lambda>y. map (\<lambda>x. f x y) [0..<a]) [0..<b]) =
     map (\<lambda>i. f (i mod a) (i div a)) [0..<a * b]"
proof (induction b)
  case 0
  then show ?case by simp
next
  case (Suc b)
  let ?F = "\<lambda>i. f (i mod a) (i div a)"
  have "[0..<a * b + a] = [0..<a * b] @ [a * b..<a * b + a]"
    by (rule upt_add_eq_append) simp
  moreover have "[a * b..<a * b + a] = map (\<lambda>x. x + a * b) [0..<a]"
    using map_add_upt[of "a * b" a] by (simp only: add.commute)
  ultimately have "map ?F [0..<a * b + a] =
      map ?F [0..<a * b] @ map (\<lambda>x. ?F (x + a * b)) [0..<a]"
    by (simp only: map_append map_map comp_def)
  moreover have "map (\<lambda>x. ?F (x + a * b)) [0..<a] = map (\<lambda>x. f x b) [0..<a]"
    by (rule map_cong) simp_all
  moreover have "concat (map (\<lambda>y. map (\<lambda>x. f x y) [0..<a]) [0..<Suc b]) =
      concat (map (\<lambda>y. map (\<lambda>x. f x y) [0..<a]) [0..<b]) @ map (\<lambda>x. f x b) [0..<a]"
    by simp
  moreover have "a * Suc b = a * b + a" by simp
  ultimately show ?case using Suc.IH by (simp only:)
qed

lemma pixels_NewNRGBA:
  assumes "0 \<le> w" and "0 \<le> h"
  shows "pixels (NewNRGBA w h g) =
     map (\<lambda>i. g (int (i mod nat w)) (int (i div nat w))) [0..<nat w * nat h]"
proof -
  have "pixels (NewNRGBA w h g) =
      concat (map (\<lambda>y. map (\<lambda>x. At (NewNRGBA w h g) (int x) (int y)) [0..<nat w]) [0..<nat h])"
    using assms by (simp add: pixels_def upto_as_upt comp_def)
  also have "\<dots> = map (\<lambda>i. At (NewNRGBA w h g) (int (i mod nat w)) (int (i div nat w)))
      [0..<nat w * nat h]"
    by (rule concat_grid_upt)
  also have "\<dots> = map (\<lambda>i. g (int (i mod nat w)) (int (i div nat w))) [0..<nat w * nat h]"
  proof (rule map_cong[OF refl])
    fix i assume "i \<in> set [0..<nat w * nat h]"
    then have i: "i < nat w * nat h" by simp
    then have w: "0 < nat w" by (cases "nat w") auto
    then have "i mod nat w < nat w" by simp
    moreover have "i div nat w < nat h"
      using i by (simp add: less_mult_imp_div_less mult.commute)
    ultimately have "int (i mod nat w) < w" "int (i div nat w) < h"
      using assms by linarith+
    then show "At (NewNRGBA w h g) (int (i mod nat w)) (int (i div nat w)) =
        g (int (i mod nat w)) (int (i div nat w))"
      by (simp add: NewNRGBA_def)
  qed
  finally show ?thesis .
qed

lemma map_spike:
  assumes "k < n"
  shows "map (\<lambda>i. if i = k then c else z) [0..<n] = replicate k z @ c # replicate (n - Suc k) z"
proof -
  have "[0..<k + (n - k)] = [0..<k] @ [k..<k + (n - k)]"
    by (rule upt_add_eq_append) simp
  moreover have "[k..<n] = k # [Suc k..<n]"
    using assms by (rule upt_conv_Cons)
  ultimately have split: "[0..<n] = [0..<k] @ k # [Suc k..<n]"
    using assms by simp
  have "map (\<lambda>i. if i = k then c else z) [0..<k] = map (\<lambda>i. z) [0..<k]"
    by (rule map_cong) auto
  then have before: "map (\<lambda>i. if i = k then c else z) [0..<k] = replicate k z"
    by (simp add: map_replicate_const)
  have "map (\<lambda>i. if i = k then c else z) [Suc k..<n] = map (\<lambda>i. z) [Suc k..<n]"
    by (rule map_cong) auto
  then have after: "map (\<lambda>i. if i = k then c else z) [Suc k..<n] = replicate (n - Suc k) z"
    by (simp add: map_replicate_const)
  show ?thesis
    unfolding split by (simp add: before after)
qed

lemma fnv_Write_append: "fnv_Write h (xs @ ys) = fnv_Write (fnv_Write h xs) ys"
  by (induction xs arbitrary: h) simp_all

lemma fnv_Write_zeros: "fnv_Write h (replicate n 0) = h * prime64 ^ n"
  by (induction n arbitrary: h) (simp_all add: mult.assoc)

lemma be32_0: "be32 0 = [0, 0, 0, 0]"
  by (simp add: be32_def)

lemma be32_65535: "be32 65535 = [0, 0, 255, 255]"
  by (simp add: be32_def)

lemma Hash_written:
  "well_formed (Bounds img) \<Longrightarrow> Hash img = Inr (fnv_Write offset64 (written (pixels img)))"
  by (simp add: Hash_def Hash_data_written)

lemma pixels_tile:
  "pixels (NewNRGBA 128 128 g) = map (\<lambda>i. g (int (i mod 128)) (int (i div 128))) [0..<16384]"
  by (simp add: pixels_NewNRGBA)

lemma index_iff:
  fixes i a b w :: nat
  assumes "a < w"
  shows "(int (i mod w) = int a \<and> int (i div w) = int b) = (i = b * w + a)"
proof
  assume "int (i mod w) = int a \<and> int (i div w) = int b"
  then have "i mod w = a" "i div w = b" by simp_all
  with div_mult_mod_eq[of i w] show "i = b * w + a" by simp
next
  assume "i = b * w + a"
  with assms show "int (i mod w) = int a \<and> int (i div w) = int b" by simp
qed

lemma pixels_alpha_b: "pixels alpha_b = (0, 0, 0, 65535) # replicate 16383 (0, 0, 0, 0)"
proof -
  have "(int (i mod 128) = 0 \<and> int (i div 128) = 0) = (i = 0)" for i :: nat
    using index_iff[of 0 128 i 0] by simp
  then have "pixels alpha_b = map (\<lambda>i. if i = 0 then (0, 0, 0, 65535) else (0, 0, 0, 0)) [0..<16384]"
    by (simp add: alpha_b_def pixels_tile)
  also have "\<dots> = replicate 0 (0, 0, 0, 0) @ (0, 0, 0, 65535) # replicate (16384 - Suc 0) (0, 0, 0, 0)"
    by (rule map_spike) simp
  finally show ?thesis by simp
qed

lemma pixels_alpha_a: "pixels alpha_a = replicate 16384 (0, 0, 0, 0)"
  by (simp add: alpha_a_def pixels_tile map_replicate_const)

lemma concat_replicate_replicate:
  "concat (replicate n (replicate k x)) = replicate (n * k) x"
  by (induction n) (simp_all add: replicate_add)

lemma be32_zero: "be32 0 = replicate 4 0"
  by (simp add: be32_def numeral_eq_Suc)

lemma zeros_12: "replicate 4 0 @ replicate 4 0 @ replicate 4 (0::byte) = replicate 12 0"
  by (simp add: replicate_add[symmetric])

lemma rgb_bytes_black: "rgb_bytes (0, 0, 0, a) = replicate 12 0"
  by (simp add: be32_def numeral_eq_Suc)

lemma written_black:
  assumes "cs \<noteq> []" and "\<forall>c \<in> set cs. rgb_bytes c = replicate 12 0"
    and "alpha_bytes (last cs) = replicate 4 0"
  shows "written cs = replicate (16 * length cs) 0"
proof -
  have "map rgb_bytes cs = replicate (length cs) (replicate 12 0)"
    using assms(2) by (simp add: map_replicate_const[symmetric] cong: map_cong)
  then have "concat (map rgb_bytes cs) = replicate (length cs * 12) 0"
    by (simp add: concat_replicate_replicate)
  moreover have "1 \<le> length cs" using assms(1) by (cases cs) auto
  then have "length cs * 12 + (4 + (4 * length cs - 4)) = 16 * length cs" by simp
  ultimately show ?thesis
    using assms(1,3) by (simp add: written_def replicate_add[symmetric])
qed

lemma Hash_data_alpha_a: "Hash_data alpha_a = Inr (replicate 262144 0)"
proof -
  have wf: "well_formed (Bounds alpha_a)" by (simp add: alpha_a_def well_formed_def)
  have "written (pixels alpha_a) = replicate (16 * length (pixels alpha_a)) 0"
    by (rule written_black) (simp_all add: pixels_alpha_a be32_zero zeros_12)
  with Hash_data_written[OF wf] show ?thesis by (simp add: pixels_alpha_a)
qed

lemma Hash_data_alpha_b: "Hash_data alpha_b = Inr (replicate 262144 0)"
proof -
  have wf: "well_formed (Bounds alpha_b)" by (simp add: alpha_b_def well_formed_def)
  have "written (pixels alpha_b) = replicate (16 * length (pixels alpha_b)) 0"
    by (rule written_black) (simp_all add: pixels_alpha_b be32_zero zeros_12)
  with Hash_data_written[OF wf] show ?thesis by (simp add: pixels_alpha_b)
qed

lemma serialized_Cons: "serialized (c # cs) = rgb_bytes c @ alpha_bytes c @ serialized cs"
  by (simp add: serialized_def)

section \<open>Claims about AddImage\<close>

text \<open>
  C2. For a cell whose index lies inside both arrays, \<open>AddImage\<close> takes the fingerprints
  of the eight variants in the order 0 to 7. Either some fingerprint is a key of the
  registry: then, for the first such index \<open>i\<close>, the cell's entry of \<open>images\<close> becomes that
  fingerprint and its entry of \<open>orientations\<close> becomes \<open>i\<close>, and the registry is left as
  it was. Or none is: then the fingerprint of variant 0 is added to the registry with
  the tile itself (variant 0) as its image, and the cell records that fingerprint with
  orientation 0.
\<close>

theorem AddImage_first_match:
  assumes "well_formed (Bounds img)"
    and "0 \<le> y * stride p + x"
    and "y * stride p + x < int (length (images p))"
    and "y * stride p + x < int (length (orientations p))"
  shows "\<exists>hs. length hs = 8 \<and> (\<forall>i<8. Hash (variants img ! i) = Inr (hs ! i)) \<and>
     ((\<exists>i<8. protoImages p (hs ! i) \<noteq> None \<and> (\<forall>j<i. protoImages p (hs ! j) = None)
          \<and> AddImage p img x y =
              Inr (p\<lparr>orientations := (orientations p)[nat (y * stride p + x) := of_nat i],
                     images := (images p)[nat (y * stride p + x) := hs ! i]\<rparr>))
      \<or> ((\<forall>i<8. protoImages p (hs ! i) = None) \<and> variants img ! 0 = img
          \<and> AddImage p img x y =
              Inr (p\<lparr>protoImages := (protoImages p)(hs ! 0 \<mapsto> img),
                     images := (images p)[nat (y * stride p + x) := hs ! 0],
                     orientations := (orientations p)[nat (y * stride p + x) := 0]\<rparr>)))"
proof -
  from variants_hashes[OF assms(1)] obtain hs where
    hs: "list_all2 (\<lambda>im h. Hash im = Inr h) (variants img) hs" by blast
  then have "length hs = 8" "\<forall>i<8. Hash (variants img ! i) = Inr (hs ! i)"
    by (auto simp: list_all2_conv_all_nth)
  with AddImage_char[OF assms hs] show ?thesis
    by (intro exI[of _ hs]) simp
qed

theorem AddImage_first_match_witness:
  "\<exists>hs. length hs = 8
     \<and> (\<forall>i<8. Hash (variants (NewNRGBA 1 1 example_pixel) ! i) = Inr (hs ! i)) \<and>
     ((\<exists>i<8. protoImages example_set (hs ! i) \<noteq> None
          \<and> (\<forall>j<i. protoImages example_set (hs ! j) = None)
          \<and> AddImage example_set (NewNRGBA 1 1 example_pixel) 0 0 =
              Inr (example_set\<lparr>orientations := (orientations example_set)[0 := of_nat i],
                     images := (images example_set)[0 := hs ! i]\<rparr>))
      \<or> ((\<forall>i<8. protoImages example_set (hs ! i) = None)
          \<and> variants (NewNRGBA 1 1 example_pixel) ! 0 = NewNRGBA 1 1 example_pixel
          \<and> AddImage example_set (NewNRGBA 1 1 example_pixel) 0 0 =
              Inr (example_set\<lparr>protoImages :=
                       (protoImages example_set)(hs ! 0 \<mapsto> NewNRGBA 1 1 example_pixel),
                     images := (images example_set)[0 := hs ! 0],
                     orientations := (orientations example_set)[0 := 0]\<rparr>)))"
proof -
  have wf: "well_formed (Bounds (NewNRGBA 1 1 example_pixel))" by simp
  have i: "0 \<le> 0 * stride example_set + 0"
    "0 * stride example_set + 0 < int (length (images example_set))"
    "0 * stride example_set + 0 < int (length (orientations example_set))"
    by (simp_all add: example_set_def)
  from AddImage_first_match[OF wf i] show ?thesis by simp
qed

text \<open>
  C6. A call of \<open>AddImage\<close> that returns leaves every binding of the registry in place:
  a key bound to an image before the call is bound to the same image after it, so no
  entry is removed and none is overwritten.
\<close>

theorem AddImage_registry_grows:
  assumes "AddImage p img x y = Inr p'" and "protoImages p k = Some v"
  shows "protoImages p' k = Some v"
  using assms by (rule AddImage_mono)

theorem AddImage_registry_grows_witness:
  "\<exists>p'. AddImage example_set (NewNRGBA 1 1 example_pixel) 0 0 = Inr p'
     \<and> protoImages p' 7 = Some (NewNRGBA 1 1 (\<lambda>x y. (0, 0, 0, 0)))"
proof -
  have "well_formed (Bounds (NewNRGBA 1 1 example_pixel))" by simp
  from AddImage_total[OF this, of 0 example_set 0] obtain p' where
    p': "AddImage example_set (NewNRGBA 1 1 example_pixel) 0 0 = Inr p'"
    by (auto simp: example_set_def)
  have "protoImages example_set 7 = Some (NewNRGBA 1 1 (\<lambda>x y. (0, 0, 0, 0)))"
    by (simp add: example_set_def)
  from AddImage_registry_grows[OF p' this] p' show ?thesis by blast
qed

section \<open>Claims about Hash\<close>

text \<open>
  C1. The claim is that \<open>Hash\<close> fingerprints the bytes of all four channels of every
  pixel, so that two tiles that differ in one alpha value are serialized differently.
  The code does not: \<open>pos\<close> is not advanced after the alpha channel, the next pixel's red
  channel overwrites it, and only the alpha of the last pixel stays (lemma
  \<open>Hash_data_written\<close>). Evaluated on two 128 by 128 tiles that differ in the alpha of
  the pixel at (0, 0) only: the serialization of the specification tells them apart,
  the array that \<open>Hash\<close> builds is 262144 zero bytes for both, and their fingerprints
  are equal.
\<close>

theorem Hash_alpha_overwritten:
  "pixels alpha_a = (0, 0, 0, 0) # replicate 16383 (0, 0, 0, 0)
   \<and> pixels alpha_b = (0, 0, 0, 65535) # replicate 16383 (0, 0, 0, 0)
   \<and> serialized (pixels alpha_a) \<noteq> serialized (pixels alpha_b)
   \<and> Hash_data alpha_a = Inr (replicate 262144 0)
   \<and> Hash_data alpha_b = Inr (replicate 262144 0)
   \<and> Hash alpha_a = Hash alpha_b"
proof -
  have a: "pixels alpha_a = (0, 0, 0, 0) # replicate 16383 (0, 0, 0, 0)"
    using replicate_Suc[of 16383 "(0, 0, 0, 0) :: color"] by (simp add: pixels_alpha_a)
  have "alpha_bytes (0, 0, 0, 0) \<noteq> alpha_bytes (0, 0, 0, 65535)"
    by (simp add: be32_def)
  then have "serialized (pixels alpha_a) \<noteq> serialized (pixels alpha_b)"
    unfolding a pixels_alpha_b serialized_Cons by (simp add: rgb_bytes_black)
  with a pixels_alpha_b Hash_data_alpha_a Hash_data_alpha_b show ?thesis
    by (simp add: Hash_def)
qed

section \<open>Claims about loading and labels\<close>

text \<open>
  C7. When the source image cannot be loaded, because the file does not exist, cannot be
  read, cannot be opened for another reason or cannot be decoded, \<open>Process\<close> returns the
  image set it was given, unchanged, with no image file and no report: no cell record and
  no registry entry is produced.
\<close>

theorem Process_load_failure:
  "Process p (OpenFails NotExist) = Inr (p, \<lparr>image_files = {}, report = None\<rparr>)
   \<and> Process p (OpenFails Permission) = Inr (p, \<lparr>image_files = {}, report = None\<rparr>)
   \<and> Process p (OpenFails OtherOpenError) = Inr (p, \<lparr>image_files = {}, report = None\<rparr>)
   \<and> Process p DecodeFails = Inr (p, \<lparr>image_files = {}, report = None\<rparr>)"
  by (simp add: Process_def no_artifacts_def)

lemma and7_cases:
  fixes b :: byte
  shows "b AND 7 \<in> {0, 1, 2, 3, 4, 5, 6, 7}"
proof -
  define n where "n = unat (b AND 7)"
  have "b AND 7 \<le> 7" by (rule word_and_le1)
  then have "n < 8" by (simp add: word_le_nat_alt n_def)
  then have "n \<in> set [0..<8]" by simp
  then have "(of_nat n :: byte) \<in> of_nat ` set [0..<8]" by (rule imageI)
  moreover have "b AND 7 = of_nat n" by (simp add: n_def)
  ultimately show ?thesis by (simp add: upt_rec)
qed

lemma and7_mod8: fixes b :: byte shows "(b mod 8) AND 7 = b AND 7"
proof -
  have "b mod 8 = b AND 7" using word_mod_2p_is_mask[of 3 b] by (simp add: mask_eq_exp_minus_1)
  then show ?thesis by simp
qed

text \<open>
  C10. For every byte, \<open>GetOrientationLabel\<close> returns one of the eight labels; the result
  is never the empty string of the fallback branch; and the label of a byte is the label
  of its remainder modulo 8.
\<close>

theorem GetOrientationLabel_total:
  "GetOrientationLabel b \<in> set orientation_labels \<and> GetOrientationLabel b \<noteq> []
   \<and> GetOrientationLabel b = GetOrientationLabel (b mod 8)"
  using and7_cases[of b]
  by (auto simp: GetOrientationLabel_def orientation_labels_def Let_def and7_mod8)

section \<open>Claims about the extraction pass\<close>

lemma Bounds_example_source:
  "0 \<le> w \<Longrightarrow> 0 \<le> h \<Longrightarrow> Bounds (example_source w h) = \<lparr>MinX = 0, MinY = 0, MaxX = w, MaxY = h\<rparr>"
  by (simp add: example_source_def Rect_def)

text \<open>
  C4. On every decoded source image (its bounds are well-formed) \<open>Process\<close> returns
  without a panic, and the arrays \<open>images\<close> and \<open>orientations\<close> have the same length. When
  width and height are both at least 128 that length is
  \<open>floor(width / 128) * floor(height / 128)\<close>; when either is below 128 both arrays are
  empty.
\<close>

theorem Process_cell_count:
  assumes "well_formed (Bounds sourceImage)"
  shows "\<exists>p' out. Process p (Decoded sourceImage) = Inr (p', out)
     \<and> length (orientations p') = length (images p')
     \<and> (128 \<le> Dx (Bounds sourceImage) \<and> 128 \<le> Dy (Bounds sourceImage) \<longrightarrow>
          int (length (images p')) = (Dx (Bounds sourceImage) div 128) * (Dy (Bounds sourceImage) div 128))
     \<and> (Dx (Bounds sourceImage) < 128 \<or> Dy (Bounds sourceImage) < 128 \<longrightarrow>
          images p' = [] \<and> orientations p' = [])"
proof -
  let ?numX = "Dx (Bounds sourceImage) div 128" and ?numY = "Dy (Bounds sourceImage) div 128"
  from well_formed_D[OF assms] have nn: "0 \<le> ?numX" "0 \<le> ?numY"
    by (simp_all add: pos_imp_zdiv_nonneg_iff)
  from Process_extract_run[OF assms, of p] obtain p0 p' where
    ext: "Process_extract p sourceImage = Process_cells sourceImage (grid ?numX ?numY) p0"
      "Process_extract p sourceImage = Inr p'"
    and p0: "stride p0 = ?numX" "length (images p0) = nat (?numX * ?numY)"
      "length (orientations p0) = nat (?numX * ?numY)"
    by blast
  have "\<forall>c \<in> set (grid ?numX ?numY). 0 \<le> fst c \<and> fst c < ?numX \<and> 0 \<le> snd c \<and> snd c < ?numY"
    by (auto simp: set_grid)
  from Process_cells_run[OF p0 this, of sourceImage] ext have p':
    "stride p' = ?numX" "length (images p') = nat (?numX * ?numY)"
    "length (orientations p') = nat (?numX * ?numY)"
    by auto
  have "images p' = [] \<or> stride p' \<noteq> 0"
    using p'(1,2) by (cases "?numX = 0") auto
  moreover have "0 + length (images p') \<le> length (orientations p')" using p'(2,3) by simp
  ultimately obtain rows where "WriteReport_rows p' 0 (images p') = Inr rows"
    using WriteReport_rows_total[of "images p'" p' 0] by blast
  then have run: "Process p (Decoded sourceImage) =
      Inr (p', \<lparr>image_files = WriteImageFiles p', report = Some rows\<rparr>)"
    using ext(2) by (simp add: Process_def WriteReport_def)
  have len: "int (length (images p')) = ?numX * ?numY"
    using p'(2) nn by simp
  have small: "Dx (Bounds sourceImage) < 128 \<or> Dy (Bounds sourceImage) < 128 \<Longrightarrow>
      images p' = [] \<and> orientations p' = []"
  proof -
    assume "Dx (Bounds sourceImage) < 128 \<or> Dy (Bounds sourceImage) < 128"
    with well_formed_D[OF assms] have "?numX = 0 \<or> ?numY = 0"
      by (auto simp: div_pos_pos_trivial)
    then have "?numX * ?numY = 0" by auto
    with p'(2,3) show ?thesis by simp
  qed
  from run p'(2,3) len small show ?thesis by auto
qed

theorem Process_cell_count_witness:
  "(\<exists>p' out. Process (NewImageSet ''in.png'') (Decoded (example_source 300 200)) = Inr (p', out)
       \<and> length (orientations p') = 2 \<and> length (images p') = 2)
   \<and> (\<exists>p' out. Process (NewImageSet ''in.png'') (Decoded (example_source 127 200)) = Inr (p', out)
       \<and> images p' = [] \<and> orientations p' = [])"
proof -
  have wf: "well_formed (Bounds (example_source 300 200))"
    "well_formed (Bounds (example_source 127 200))"
    by (simp_all add: Bounds_example_source)
  from Process_cell_count[OF wf(1), of "NewImageSet ''in.png''"]
       Process_cell_count[OF wf(2), of "NewImageSet ''in.png''"]
  show ?thesis
    by (simp add: Bounds_example_source Dx_def Dy_def) metis
qed

text \<open>
  C5. The extraction pass of \<open>Process\<close> is the loop of \<open>AddImage\<close> calls over \<open>grid\<close>,
  started on the freshly allocated arrays. At every point of it, that is after the calls
  for the first \<open>n\<close> cells for every \<open>n\<close>, the pass has not panicked and the entry of
  \<open>images\<close> of each cell processed so far is a key of \<open>protoImages\<close>.
\<close>

theorem Process_cells_registered:
  assumes "well_formed (Bounds sourceImage)"
    and "calculateNumberImages (Bounds sourceImage) = (numX, numY)"
  shows "\<exists>p0. Process_alloc p numX numY = Inr p0
     \<and> Process_extract p sourceImage = Process_cells sourceImage (grid numX numY) p0
     \<and> (\<forall>n. \<exists>pn. Process_cells sourceImage (take n (grid numX numY)) p0 = Inr pn
           \<and> (\<forall>c \<in> set (take n (grid numX numY)).
                 protoImages pn (images pn ! nat (snd c * stride pn + fst c)) \<noteq> None))"
proof -
  from assms have num: "numX = Dx (Bounds sourceImage) div 128" "numY = Dy (Bounds sourceImage) div 128"
    by (simp_all add: calculateNumberImages_well_formed)
  from Process_extract_run[OF assms(1), of p] num obtain p0 where
    alloc: "Process_alloc p numX numY = Inr p0"
    and ext: "Process_extract p sourceImage = Process_cells sourceImage (grid numX numY) p0"
    and p0: "stride p0 = numX" "length (images p0) = nat (numX * numY)"
      "length (orientations p0) = nat (numX * numY)"
    by auto
  have "\<exists>pn. Process_cells sourceImage (take n (grid numX numY)) p0 = Inr pn
           \<and> (\<forall>c \<in> set (take n (grid numX numY)).
                 protoImages pn (images pn ! nat (snd c * stride pn + fst c)) \<noteq> None)" for n
  proof -
    have "\<forall>c \<in> set (take n (grid numX numY)).
        0 \<le> fst c \<and> fst c < numX \<and> 0 \<le> snd c \<and> snd c < numY"
      by (auto dest!: in_set_takeD simp: set_grid)
    from Process_cells_run[OF p0 this, of sourceImage] show ?thesis by auto
  qed
  with alloc ext show ?thesis by blast
qed

theorem Process_cells_registered_witness:
  "\<exists>p0. Process_alloc (NewImageSet ''in.png'') 2 1 = Inr p0
     \<and> Process_extract (NewImageSet ''in.png'') (example_source 256 128) =
         Process_cells (example_source 256 128) [(0, 0), (1, 0)] p0
     \<and> (\<exists>p1. Process_cells (example_source 256 128) [(0, 0)] p0 = Inr p1
           \<and> protoImages p1 (images p1 ! 0) \<noteq> None)
     \<and> (\<exists>p2. Process_cells (example_source 256 128) [(0, 0), (1, 0)] p0 = Inr p2
           \<and> protoImages p2 (images p2 ! 0) \<noteq> None \<and> protoImages p2 (images p2 ! 1) \<noteq> None)"
proof -
  have wf: "well_formed (Bounds (example_source 256 128))"
    by (simp add: Bounds_example_source)
  have num: "calculateNumberImages (Bounds (example_source 256 128)) = (2, 1)"
    by (simp add: calculateNumberImages_def calculateStride_def go_quot_def
        Bounds_example_source)
  have g: "grid 2 1 = [(0, 0), (1, 0)]"
    by (simp add: grid_def upto_rec1)
  from Process_cells_registered[OF wf num, of "NewImageSet ''in.png''"] obtain p0 where
    p0: "Process_alloc (NewImageSet ''in.png'') 2 1 = Inr p0"
      "Process_extract (NewImageSet ''in.png'') (example_source 256 128) =
         Process_cells (example_source 256 128) (grid 2 1) p0"
    and all: "\<And>n. \<exists>pn. Process_cells (example_source 256 128) (take n (grid 2 1)) p0 = Inr pn
           \<and> (\<forall>c \<in> set (take n (grid 2 1)).
                 protoImages pn (images pn ! nat (snd c * stride pn + fst c)) \<noteq> None)"
    by blast
  have st: "stride pn = 2" if "Process_cells (example_source 256 128) cs p0 = Inr pn"
    "\<forall>c \<in> set cs. 0 \<le> fst c \<and> fst c < 2 \<and> 0 \<le> snd c \<and> snd c < 1" for cs pn
    using Process_cells_run[of p0 2 1 cs "example_source 256 128"] p0(1) that
    by (auto simp: Process_alloc_def)
  from all[of 1] g obtain p1 where
    p1: "Process_cells (example_source 256 128) [(0, 0)] p0 = Inr p1"
      "protoImages p1 (images p1 ! 0) \<noteq> None"
    by auto
  from all[of 2] g obtain p2 where
    p2: "Process_cells (example_source 256 128) [(0, 0), (1, 0)] p0 = Inr p2"
      "protoImages p2 (images p2 ! nat (0 * stride p2 + 0)) \<noteq> None"
      "protoImages p2 (images p2 ! nat (0 * stride p2 + 1)) \<noteq> None"
    by auto
  from p0 p1 p2 g show ?thesis by auto
qed

lemma keyed_by_hash_New: "keyed_by_hash (NewImageSet path)"
  by (simp add: keyed_by_hash_def NewImageSet_def)

text \<open>
  C9. When every entry of the registry is stored under the fingerprint of its image at
  the start, as in the empty registry of \<open>NewImageSet\<close>, then so it is at every point of
  the extraction pass: after the calls of \<open>AddImage\<close> for the first \<open>n\<close> cells, for every
  \<open>n\<close>, each key of \<open>protoImages\<close> is \<open>Hash\<close> of the image stored under it.
\<close>

theorem registry_keyed_by_hash:
  assumes "well_formed (Bounds sourceImage)"
    and "calculateNumberImages (Bounds sourceImage) = (numX, numY)"
    and "keyed_by_hash p"
  shows "\<exists>p0. Process_alloc p numX numY = Inr p0
     \<and> Process_extract p sourceImage = Process_cells sourceImage (grid numX numY) p0
     \<and> (\<forall>n. \<exists>pn. Process_cells sourceImage (take n (grid numX numY)) p0 = Inr pn
           \<and> keyed_by_hash pn)"
proof -
  from assms have num: "numX = Dx (Bounds sourceImage) div 128" "numY = Dy (Bounds sourceImage) div 128"
    by (simp_all add: calculateNumberImages_well_formed)
  from Process_extract_run[OF assms(1), of p] num obtain p0 where
    alloc: "Process_alloc p numX numY = Inr p0"
    and ext: "Process_extract p sourceImage = Process_cells sourceImage (grid numX numY) p0"
    and p0: "stride p0 = numX" "length (images p0) = nat (numX * numY)"
      "length (orientations p0) = nat (numX * numY)"
    and reg: "protoImages p0 = protoImages p"
    by auto
  from reg assms(3) have k0: "keyed_by_hash p0" by (simp add: keyed_by_hash_def)
  have "\<exists>pn. Process_cells sourceImage (take n (grid numX numY)) p0 = Inr pn
           \<and> keyed_by_hash pn" for n
  proof -
    have "\<forall>c \<in> set (take n (grid numX numY)).
        0 \<le> fst c \<and> fst c < numX \<and> 0 \<le> snd c \<and> snd c < numY"
      by (auto dest!: in_set_takeD simp: set_grid)
    from Process_cells_run[OF p0 this, of sourceImage] k0 show ?thesis by auto
  qed
  with alloc ext show ?thesis by blast
qed

theorem registry_keyed_by_hash_witness:
  "\<exists>p0. Process_alloc (NewImageSet ''in.png'') 2 1 = Inr p0
     \<and> Process_extract (NewImageSet ''in.png'') (example_source 256 128) =
         Process_cells (example_source 256 128) [(0, 0), (1, 0)] p0
     \<and> (\<exists>p1. Process_cells (example_source 256 128) [(0, 0)] p0 = Inr p1 \<and> keyed_by_hash p1)
     \<and> (\<exists>p2. Process_cells (example_source 256 128) [(0, 0), (1, 0)] p0 = Inr p2
           \<and> keyed_by_hash p2)"
proof -
  have wf: "well_formed (Bounds (example_source 256 128))"
    by (simp add: Bounds_example_source)
  have num: "calculateNumberImages (Bounds (example_source 256 128)) = (2, 1)"
    by (simp add: calculateNumberImages_def calculateStride_def go_quot_def
        Bounds_example_source)
  have g: "grid 2 1 = [(0, 0), (1, 0)]"
    by (simp add: grid_def upto_rec1)
  from registry_keyed_by_hash[OF wf num keyed_by_hash_New, of "''in.png''"] obtain p0 where
    p0: "Process_alloc (NewImageSet ''in.png'') 2 1 = Inr p0"
      "Process_extract (NewImageSet ''in.png'') (example_source 256 128) =
         Process_cells (example_source 256 128) (grid 2 1) p0"
    and all: "\<And>n. \<exists>pn. Process_cells (example_source 256 128) (take n (grid 2 1)) p0 = Inr pn
           \<and> keyed_by_hash pn"
    by blast
  from all[of 1] all[of 2] p0 g show ?thesis by auto
qed

section \<open>Claims about the orientation variants\<close>

lemma NewNRGBA_cong:
  assumes "\<And>x y. 0 \<le> x \<Longrightarrow> x < w \<Longrightarrow> 0 \<le> y \<Longrightarrow> y < h \<Longrightarrow> f x y = g x y"
  shows "NewNRGBA w h f = NewNRGBA w h g"
  using assms by (auto simp: NewNRGBA_def fun_eq_iff)

lemma At_NewNRGBA:
  "At (NewNRGBA w h f) x y = (if 0 \<le> x \<and> x < w \<and> 0 \<le> y \<and> y < h then f x y else (0, 0, 0, 0))"
  by (simp add: NewNRGBA_def)

lemma Rotate90_NewNRGBA:
  "Rotate90 (NewNRGBA w h f) = NewNRGBA h w (\<lambda>x y. f (w - 1 - y) x)"
  by (simp add: Rotate90_def Let_def Dx_def Dy_def, rule NewNRGBA_cong, simp add: At_NewNRGBA algebra_simps)

lemma Rotate180_NewNRGBA:
  "Rotate180 (NewNRGBA w h f) = NewNRGBA w h (\<lambda>x y. f (w - 1 - x) (h - 1 - y))"
  by (simp add: Rotate180_def Let_def Dx_def Dy_def, rule NewNRGBA_cong, simp add: At_NewNRGBA algebra_simps)

lemma Rotate270_NewNRGBA:
  "Rotate270 (NewNRGBA w h f) = NewNRGBA h w (\<lambda>x y. f y (h - 1 - x))"
  by (simp add: Rotate270_def Let_def Dx_def Dy_def, rule NewNRGBA_cong, simp add: At_NewNRGBA algebra_simps)

lemma FlipH_NewNRGBA:
  "FlipH (NewNRGBA w h f) = NewNRGBA w h (\<lambda>x y. f (w - 1 - x) y)"
  by (simp add: FlipH_def Let_def Dx_def Dy_def, rule NewNRGBA_cong, simp add: At_NewNRGBA algebra_simps)

lemmas transform_NewNRGBA =
  Rotate90_NewNRGBA Rotate180_NewNRGBA Rotate270_NewNRGBA FlipH_NewNRGBA

lemma unvariant_variants_NewNRGBA:
  assumes "i < 8"
  shows "unvariant i (variants (NewNRGBA w h f) ! i) = NewNRGBA w h f"
proof -
  have v: "variants (NewNRGBA w h f) =
      [NewNRGBA w h f,
       NewNRGBA h w (\<lambda>x y. f (w - 1 - y) x),
       NewNRGBA w h (\<lambda>x y. f (w - 1 - x) (h - 1 - y)),
       NewNRGBA h w (\<lambda>x y. f y (h - 1 - x)),
       NewNRGBA w h (\<lambda>x y. f (w - 1 - x) y),
       NewNRGBA h w (\<lambda>x y. f (w - 1 - (w - 1 - y)) x),
       NewNRGBA w h (\<lambda>x y. f (w - 1 - (w - 1 - x)) (h - 1 - y)),
       NewNRGBA h w (\<lambda>x y. f (w - 1 - y) (h - 1 - x))]"
    by (simp add: variants_def transform_NewNRGBA)
  have "list_all (\<lambda>i. unvariant i (variants (NewNRGBA w h f) ! i) = NewNRGBA w h f) [0..<8]"
    unfolding v by (simp add: upt_rec unvariant_def transform_NewNRGBA)
  with assms show ?thesis by (simp add: list_all_iff)
qed

text \<open>
  C8. For every image \<open>T\<close> of the library's kind (bounds from (0, 0), transparent black
  outside them), in particular for every tile that \<open>Crop\<close> cuts out, and every index
  \<open>i\<close> from 0 to 7: the inverse transform of orientation \<open>i\<close>, applied to \<open>images[i]\<close>
  as \<open>AddImage\<close> builds it from \<open>T\<close>, is \<open>T\<close> again, bounds and every pixel.
\<close>

theorem variants_invertible:
  assumes "i < 8"
  shows "unvariant i (variants (NewNRGBA w h f) ! i) = NewNRGBA w h f
    \<and> unvariant i (variants (Crop sourceImage rect) ! i) = Crop sourceImage rect"
  using unvariant_variants_NewNRGBA[OF assms] by (simp add: Crop_def Let_def)

theorem variants_invertible_witness:
  "unvariant 5 (variants (NewNRGBA 2 3 example_pixel) ! 5) = NewNRGBA 2 3 example_pixel
    \<and> unvariant 5 (variants (Crop (example_source 256 256) (Rect 128 0 256 128)) ! 5)
        = Crop (example_source 256 256) (Rect 128 0 256 128)
    \<and> variants (NewNRGBA 2 3 example_pixel) ! 5 = Rotate90 (FlipH (NewNRGBA 2 3 example_pixel))
    \<and> At (Rotate90 (FlipH (NewNRGBA 2 3 example_pixel))) 2 0 = At (NewNRGBA 2 3 example_pixel) 0 2
    \<and> At (Rotate90 (NewNRGBA 2 3 example_pixel)) 2 0 = At (NewNRGBA 2 3 example_pixel) 1 2"
proof -
  have "(5::nat) < 8" by simp
  from variants_invertible[OF this, of 2 3 example_pixel "example_source 256 256" "Rect 128 0 256 128"]
  show ?thesis
    by (simp add: variants_def transform_NewNRGBA At_NewNRGBA)
qed

end
